theory Spec2Isabelle
  imports Complex_Main "HOL-Library.AList"
begin

section \<open>Data model\<close>

text \<open>
  The scheduling core of the event planner: \<^verbatim>\<open>app/models/core.py\<close>,
  \<^verbatim>\<open>app/services/dependency_manager.py\<close> and the day packer of
  \<^verbatim>\<open>app/services/timeline_intelligence_engine.py\<close>.

  Conventions of the embedding.
  \<^item> A \<^verbatim>\<open>timedelta\<close> is an \<open>int\<close>: its number of microseconds. A naive
    \<^verbatim>\<open>datetime\<close> is an \<open>int\<close>: the microseconds since \<^verbatim>\<open>datetime.min\<close>; a
    \<^verbatim>\<open>date\<close> is its day number. The range limits of both Python types
    (\<^verbatim>\<open>OverflowError\<close>) are not modelled.
  \<^item> A \<^verbatim>\<open>Dict\<close> is an association list with distinct keys in insertion order
    (\<open>map_of\<close> reads it, \<open>AList.update\<close> writes it as Python does: in place when the
    key exists, appended otherwise).
  \<^item> A \<^verbatim>\<open>Set[str]\<close> is a duplicate-free list; its order stands for the iteration
    order of the Python set, which no theorem below depends on.
  \<^item> An exception is a value \<open>Inl e\<close> of a sum type; the graph a raising call leaves
    half updated is dropped.
  \<^item> \<^verbatim>\<open>Decimal\<close> amounts are rationals. Fields that no modelled function reads
    (descriptions, notes, contingency plans) are left out.
\<close>

datatype error = ValueError string | KeyError string | TypeError | OverflowError

datatype ActivityType = CEREMONY | PREPARATION | CATERING | ENTERTAINMENT | PHOTOGRAPHY
  | DECORATION | TRANSPORTATION | CLEANUP | BREAK | NETWORKING

datatype Priority = CRITICAL | HIGH | MEDIUM | LOW | OPTIONAL

fun activity_type_value :: "ActivityType \<Rightarrow> string" where
  "activity_type_value CEREMONY = ''ceremony''"
| "activity_type_value PREPARATION = ''preparation''"
| "activity_type_value CATERING = ''catering''"
| "activity_type_value ENTERTAINMENT = ''entertainment''"
| "activity_type_value PHOTOGRAPHY = ''photography''"
| "activity_type_value DECORATION = ''decoration''"
| "activity_type_value TRANSPORTATION = ''transportation''"
| "activity_type_value CLEANUP = ''cleanup''"
| "activity_type_value BREAK = ''break''"
| "activity_type_value NETWORKING = ''networking''"

fun priority_value :: "Priority \<Rightarrow> string" where
  "priority_value CRITICAL = ''critical''"
| "priority_value HIGH = ''high''"
| "priority_value MEDIUM = ''medium''"
| "priority_value LOW = ''low''"
| "priority_value OPTIONAL = ''optional''"

definition microseconds_per_minute :: int where
  "microseconds_per_minute = 60000000"

definition minutes :: "int \<Rightarrow> int" where
  "minutes n = n * microseconds_per_minute"

definition hours :: "int \<Rightarrow> int" where
  "hours n = n * (60 * microseconds_per_minute)"

definition days :: "int \<Rightarrow> int" where
  "days n = n * (24 * 60 * microseconds_per_minute)"

definition datetime_min :: int where
  "datetime_min = 0"

record Dependency =
  predecessor_id :: string
  successor_id :: string
  dependency_type :: string
  lag_time :: int

record Activity =
  activity_id :: string
  name :: string
  activity_type :: ActivityType
  duration :: int
  priority :: Priority
  required_vendors :: "string list"
  estimated_cost :: rat
  setup_time :: int
  cleanup_time :: int

record DependencyNode =
  activity :: Activity
  predecessors :: "string list"
  successors :: "string list"
  earliest_start :: "int option"
  earliest_finish :: "int option"
  latest_start :: "int option"
  latest_finish :: "int option"
  slack :: int
  is_critical :: bool

record DependencyGraph =
  nodes :: "(string \<times> DependencyNode) list"
  dependencies :: "Dependency list"
  critical_path :: "string list"
  total_duration :: int

text \<open>\<^verbatim>\<open>DependencyNode(activity=activity)\<close> and \<^verbatim>\<open>DependencyGraph()\<close> with the
  dataclass defaults.\<close>

definition new_node :: "Activity \<Rightarrow> DependencyNode" where
  "new_node a = \<lparr>activity = a, predecessors = [], successors = [],
     earliest_start = None, earliest_finish = None, latest_start = None,
     latest_finish = None, slack = 0, is_critical = False\<rparr>"

definition empty_graph :: DependencyGraph where
  "empty_graph = \<lparr>nodes = [], dependencies = [], critical_path = [], total_duration = 0\<rparr>"

text \<open>\<^verbatim>\<open>DependencyNode.total_duration()\<close>.\<close>

definition node_total_duration :: "DependencyNode \<Rightarrow> int" where
  "node_total_duration node =
     setup_time (activity node) + duration (activity node) + cleanup_time (activity node)"

text \<open>\<^verbatim>\<open>set.add\<close>.\<close>

definition set_add :: "string \<Rightarrow> string list \<Rightarrow> string list" where
  "set_add x xs = (if x \<in> set xs then xs else xs @ [x])"

section \<open>Validation\<close>

text \<open>
  The characters \<^verbatim>\<open>str.strip()\<close> removes, those for which \<^verbatim>\<open>str.isspace\<close> holds. A
  character is a code point below 256 here; among these the white space is the tab to
  carriage return (9 to 13), the four separators 28 to 31, the space, the next-line control
  U+0085 and the no-break space U+00A0.
\<close>

definition is_space :: "char \<Rightarrow> bool" where
  "is_space c = (of_char c \<in> {9, 10, 11, 12, 13, 28, 29, 30, 31, 32, 133, 160 :: nat})"

text \<open>\<^verbatim>\<open>not s or not s.strip()\<close>.\<close>

definition blank :: "string \<Rightarrow> bool" where
  "blank s = (s = [] \<or> list_all is_space s)"

text \<open>\<^verbatim>\<open>Activity.validate\<close>: the list of messages, empty when the activity is valid.\<close>

definition Activity_validate :: "Activity \<Rightarrow> string list" where
  "Activity_validate a =
     (if blank (activity_id a) then [''Activity ID is required''] else []) @
     (if blank (name a) then [''Activity name is required''] else []) @
     (if duration a \<le> 0 then [''Duration must be positive''] else []) @
     (if estimated_cost a < 0 then [''Estimated cost cannot be negative''] else [])"

definition dependency_types :: "string list" where
  "dependency_types =
     [''finish_to_start'', ''start_to_start'', ''finish_to_finish'', ''start_to_finish'']"

text \<open>\<^verbatim>\<open>Dependency.validate\<close>.\<close>

definition Dependency_validate :: "Dependency \<Rightarrow> string list" where
  "Dependency_validate d =
     (if predecessor_id d = [] then [''Predecessor ID is required''] else []) @
     (if successor_id d = [] then [''Successor ID is required''] else []) @
     (if predecessor_id d = successor_id d then [''Activity cannot depend on itself''] else []) @
     (if dependency_type d \<notin> set dependency_types then [''Invalid dependency type''] else [])"

text \<open>\<^verbatim>\<open>sep.join(xs)\<close>.\<close>

fun join :: "string \<Rightarrow> string list \<Rightarrow> string" where
  "join sep [] = []"
| "join sep [x] = x"
| "join sep (x # y # ys) = x @ sep @ join sep (y # ys)"

section \<open>Building the graph\<close>

text \<open>\<^verbatim>\<open>DependencyGraph.add_activity\<close>: no check of the activity, no raise.\<close>

definition add_activity :: "DependencyGraph \<Rightarrow> Activity \<Rightarrow> DependencyGraph" where
  "add_activity g a =
     (if activity_id a \<notin> fst ` set (nodes g)
      then g\<lparr>nodes := nodes g @ [(activity_id a, new_node a)]\<rparr>
      else g)"

text \<open>\<^verbatim>\<open>self.nodes[k].successors.add(s)\<close> and \<^verbatim>\<open>self.nodes[k].predecessors.add(p)\<close>
  on the node stored under an existing key.\<close>

definition add_successor :: "string \<Rightarrow> string \<Rightarrow> (string \<times> DependencyNode) list
    \<Rightarrow> (string \<times> DependencyNode) list" where
  "add_successor k s ns = map (\<lambda>(k', n). if k' = k then (k', n\<lparr>successors := set_add s (successors n)\<rparr>) else (k', n)) ns"

definition add_predecessor :: "string \<Rightarrow> string \<Rightarrow> (string \<times> DependencyNode) list
    \<Rightarrow> (string \<times> DependencyNode) list" where
  "add_predecessor k p ns = map (\<lambda>(k', n). if k' = k then (k', n\<lparr>predecessors := set_add p (predecessors n)\<rparr>) else (k', n)) ns"

text \<open>\<^verbatim>\<open>DependencyGraph.add_dependency\<close>.\<close>

definition add_dependency :: "DependencyGraph \<Rightarrow> Dependency \<Rightarrow> error + DependencyGraph" where
  "add_dependency g d =
     (let errors = Dependency_validate d in
      if errors \<noteq> [] then Inl (ValueError (''Invalid dependency: '' @ join '', '' errors))
      else if predecessor_id d \<notin> fst ` set (nodes g)
        then Inl (ValueError (''Predecessor activity '' @ [CHR 39] @ predecessor_id d @ [CHR 39] @ '' not found''))
      else if successor_id d \<notin> fst ` set (nodes g)
        then Inl (ValueError (''Successor activity '' @ [CHR 39] @ successor_id d @ [CHR 39] @ '' not found''))
      else Inr (g\<lparr>dependencies := dependencies g @ [d],
                  nodes := add_predecessor (successor_id d) (predecessor_id d)
                             (add_successor (predecessor_id d) (successor_id d) (nodes g))\<rparr>))"

section \<open>Cycle check and topological order\<close>

text \<open>\<^verbatim>\<open>WHITE, GRAY, BLACK = 0, 1, 2\<close>; \<^verbatim>\<open>colors\<close> is the dictionary of the search.\<close>

datatype color = WHITE | GRAY | BLACK

definition white_count :: "DependencyGraph \<Rightarrow> (string \<rightharpoonup> color) \<Rightarrow> nat" where
  "white_count g colors = card {k \<in> fst ` set (nodes g). colors k = Some WHITE}"

text \<open>The nested function \<^verbatim>\<open>dfs\<close> of \<^verbatim>\<open>has_cycle\<close>, with the dictionary it mutates
  passed in and returned, and its \<^verbatim>\<open>for successor_id in ...successors\<close> loop. Python's
  recursion limit is not modelled.\<close>

function dfs :: "DependencyGraph \<Rightarrow> (string \<rightharpoonup> color) \<Rightarrow> string
    \<Rightarrow> error + bool \<times> (string \<rightharpoonup> color)"
  and dfs_successors :: "DependencyGraph \<Rightarrow> (string \<rightharpoonup> color) \<Rightarrow> string list
    \<Rightarrow> error + bool \<times> (string \<rightharpoonup> color)"
where
  "dfs g colors node_id =
     (case colors node_id of
        None \<Rightarrow> Inl (KeyError node_id)
      | Some c \<Rightarrow>
          if c = GRAY then Inr (True, colors)
          else if c = BLACK then Inr (False, colors)
          else (case map_of (nodes g) node_id of
                  None \<Rightarrow> Inl (KeyError node_id)
                | Some node \<Rightarrow>
                    (case dfs_successors g (colors(node_id \<mapsto> GRAY)) (successors node) of
                       Inl e \<Rightarrow> Inl e
                     | Inr (found, colors') \<Rightarrow>
                         if found then Inr (True, colors')
                         else Inr (False, colors'(node_id \<mapsto> BLACK)))))"
| "dfs_successors g colors [] = Inr (False, colors)"
| "dfs_successors g colors (succ_id # rest) =
     (case dfs g colors succ_id of
        Inl e \<Rightarrow> Inl e
      | Inr (found, colors') \<Rightarrow>
          if found then Inr (True, colors') else dfs_successors g colors' rest)"
  by pat_completeness auto

lemma white_count_upd_le:
  "c \<noteq> WHITE \<Longrightarrow> white_count g (colors(k \<mapsto> c)) \<le> white_count g colors"
  unfolding white_count_def by (rule card_mono) auto

lemma white_count_upd_less:
  "colors k = Some WHITE \<Longrightarrow> k \<in> fst ` set (nodes g) \<Longrightarrow> c \<noteq> WHITE
   \<Longrightarrow> white_count g (colors(k \<mapsto> c)) < white_count g colors"
  unfolding white_count_def by (rule psubset_card_mono) auto

lemma dfs_white_count_dom:
  "dfs_dfs_successors_dom (Inl (g, colors, node_id)) \<Longrightarrow> dfs g colors node_id = Inr (b, colors')
   \<Longrightarrow> white_count g colors' \<le> white_count g colors"
  "dfs_dfs_successors_dom (Inr (g, colors, ss)) \<Longrightarrow> dfs_successors g colors ss = Inr (b, colors')
   \<Longrightarrow> white_count g colors' \<le> white_count g colors"
proof (induction g colors node_id and g colors ss arbitrary: b colors' and b colors'
    rule: dfs_dfs_successors.pinduct)
  case (1 g colors node_id)
  from "1.prems" "1.hyps" show ?case
    by (auto simp: dfs.psimps split: option.splits if_splits sum.splits prod.splits
        dest!: "1.IH" intro: le_trans[OF _ white_count_upd_le] le_trans[OF white_count_upd_le])
next
  case (2 g colors)
  then show ?case by (simp add: dfs_successors.psimps)
next
  case (3 g colors succ_id rest)
  show ?case
  proof (cases "dfs g colors succ_id")
    case (Inl e)
    with "3.prems" "3.hyps" show ?thesis by (simp add: dfs_successors.psimps)
  next
    case (Inr r)
    obtain found c1 where r: "r = (found, c1)" by (cases r)
    have le1: "white_count g c1 \<le> white_count g colors"
      using "3.IH"(1) Inr r by simp
    show ?thesis
    proof (cases found)
      case True
      with "3.prems" "3.hyps" Inr r le1 show ?thesis by (simp add: dfs_successors.psimps)
    next
      case False
      with "3.prems" "3.hyps" Inr r have "dfs_successors g c1 rest = Inr (b, colors')"
        by (simp add: dfs_successors.psimps)
      from "3.IH"(2)[OF Inr r[symmetric] False this] le1 show ?thesis by simp
    qed
  qed
qed

termination dfs
proof (relation "measures
    [\<lambda>x. case x of Inl (g, colors, u) \<Rightarrow> white_count g colors
                  | Inr (g, colors, ss) \<Rightarrow> white_count g colors,
     \<lambda>x. case x of Inl _ \<Rightarrow> 0 | Inr (g, colors, ss) \<Rightarrow> Suc (length ss)]", goal_cases)
  case 1
  show ?case by simp
next
  case (2 g colors node_id c node)
  then have "colors node_id = Some WHITE" by (cases c) auto
  moreover from 2 have "node_id \<in> fst ` set (nodes g)"
    by (force dest: map_of_SomeD)
  ultimately show ?case by (simp add: white_count_upd_less)
next
  case (3 g colors succ_id rest)
  show ?case by simp
next
  case (4 g colors succ_id rest r found c1)
  then have "white_count g c1 \<le> white_count g colors"
    using dfs_white_count_dom(1)[of g colors succ_id found c1] by simp
  then show ?case by auto
qed

text \<open>The loop \<^verbatim>\<open>for node_id in self.nodes: if colors[node_id] == WHITE: ...\<close>.\<close>

fun has_cycle_loop :: "DependencyGraph \<Rightarrow> (string \<rightharpoonup> color) \<Rightarrow> string list \<Rightarrow> error + bool" where
  "has_cycle_loop g colors [] = Inr False"
| "has_cycle_loop g colors (node_id # rest) =
     (case colors node_id of
        None \<Rightarrow> Inl (KeyError node_id)
      | Some c \<Rightarrow>
          if c = WHITE then
            (case dfs g colors node_id of
               Inl e \<Rightarrow> Inl e
             | Inr (found, colors') \<Rightarrow>
                 if found then Inr True else has_cycle_loop g colors' rest)
          else has_cycle_loop g colors rest)"

text \<open>\<^verbatim>\<open>DependencyGraph.has_cycle\<close>.\<close>

definition has_cycle :: "DependencyGraph \<Rightarrow> error + bool" where
  "has_cycle g =
     has_cycle_loop g (map_of (map (\<lambda>(node_id, node). (node_id, WHITE)) (nodes g)))
       (map fst (nodes g))"

text \<open>The inner loop of \<^verbatim>\<open>topological_sort\<close>: \<^verbatim>\<open>in_degree[successor_id] -= 1\<close>, then
  the append to the queue when the count reaches zero.\<close>

fun process_successors :: "(string \<times> int) list \<Rightarrow> string list \<Rightarrow> string list
    \<Rightarrow> error + (string \<times> int) list \<times> string list" where
  "process_successors in_degree queue [] = Inr (in_degree, queue)"
| "process_successors in_degree queue (succ_id # rest) =
     (case map_of in_degree succ_id of
        None \<Rightarrow> Inl (KeyError succ_id)
      | Some d \<Rightarrow>
          process_successors (AList.update succ_id (d - 1) in_degree)
            (if d - 1 = 0 then queue @ [succ_id] else queue) rest)"

definition positive_count :: "(string \<times> int) list \<Rightarrow> nat" where
  "positive_count in_degree = length (filter (\<lambda>(k, d). 0 < d) in_degree)"

lemma positive_count_update:
  "map_of in_degree k = Some d \<Longrightarrow>
   positive_count (AList.update k (d - 1) in_degree) + (if d = 1 then 1 else 0)
     = positive_count in_degree"
  unfolding positive_count_def
  by (induction in_degree) (auto split: if_splits)

lemma process_successors_measure:
  "process_successors in_degree queue ss = Inr (in_degree', queue')
   \<Longrightarrow> positive_count in_degree' + length queue' = positive_count in_degree + length queue"
proof (induction ss arbitrary: in_degree queue)
  case Nil
  then show ?case by simp
next
  case (Cons s ss)
  then obtain d where d: "map_of in_degree s = Some d"
    by (auto split: option.splits)
  with Cons.prems have "process_successors (AList.update s (d - 1) in_degree)
      (if d - 1 = 0 then queue @ [s] else queue) ss = Inr (in_degree', queue')"
    by simp
  from Cons.IH[OF this] positive_count_update[OF d] show ?case
    by (auto split: if_splits)
qed

text \<open>The \<^verbatim>\<open>while queue:\<close> loop of \<^verbatim>\<open>topological_sort\<close> (Kahn's algorithm).\<close>

function kahn_loop :: "DependencyGraph \<Rightarrow> (string \<times> int) list \<Rightarrow> string list \<Rightarrow> string list
    \<Rightarrow> error + string list" where
  "kahn_loop g in_degree [] result = Inr result"
| "kahn_loop g in_degree (node_id # queue) result =
     (case map_of (nodes g) node_id of
        None \<Rightarrow> Inl (KeyError node_id)
      | Some node \<Rightarrow>
          (case process_successors in_degree queue (successors node) of
             Inl e \<Rightarrow> Inl e
           | Inr (in_degree', queue') \<Rightarrow> kahn_loop g in_degree' queue' (result @ [node_id])))"
  by pat_completeness auto
termination
  by (relation "measure (\<lambda>(g, in_degree, queue, result). positive_count in_degree + length queue)")
     (auto dest: process_successors_measure)

text \<open>\<^verbatim>\<open>DependencyGraph.topological_sort\<close>.\<close>

definition topological_sort :: "DependencyGraph \<Rightarrow> error + string list" where
  "topological_sort g =
     (case has_cycle g of
        Inl e \<Rightarrow> Inl e
      | Inr True \<Rightarrow> Inl (ValueError ''Cannot perform topological sort: dependency graph has cycles'')
      | Inr False \<Rightarrow>
          (let in_degree = map (\<lambda>(node_id, node). (node_id, int (length (predecessors node)))) (nodes g);
               queue = map fst (filter (\<lambda>(node_id, degree). degree = 0) in_degree)
           in case kahn_loop g in_degree queue [] of
                Inl e \<Rightarrow> Inl e
              | Inr result \<Rightarrow>
                  if length result \<noteq> length (nodes g)
                  then Inl (ValueError ''Topological sort failed: dependency graph has cycles'')
                  else Inr result))"

section \<open>Automatic dependencies\<close>

text \<open>\<^verbatim>\<open>str.lower()\<close> on ASCII letters, and \<^verbatim>\<open>sub in s\<close> on strings.\<close>

definition lower_char :: "char \<Rightarrow> char" where
  "lower_char c = (if 65 \<le> (of_char c :: nat) \<and> (of_char c :: nat) \<le> 90
                   then char_of (of_char c + (32 :: nat)) else c)"

definition lower :: "string \<Rightarrow> string" where
  "lower s = map lower_char s"

fun starts_with :: "string \<Rightarrow> string \<Rightarrow> bool" where
  "starts_with [] s = True"
| "starts_with (x # xs) [] = False"
| "starts_with (x # xs) (y # ys) = (x = y \<and> starts_with xs ys)"

fun contains :: "string \<Rightarrow> string \<Rightarrow> bool" where
  "contains sub [] = (sub = [])"
| "contains sub (c # cs) = (starts_with sub (c # cs) \<or> contains sub cs)"

text \<open>The first loop of each tradition in \<^verbatim>\<open>_get_cultural_sequence_dependencies\<close>: the
  dictionary from ceremony name to the id of the last activity whose lowered name contains
  it (an activity counts for the first ceremony of the sequence it matches).\<close>

fun first_match :: "string list \<Rightarrow> string \<Rightarrow> string option" where
  "first_match [] activity_name_lower = None"
| "first_match (ceremony # rest) activity_name_lower =
     (if contains ceremony activity_name_lower then Some ceremony
      else first_match rest activity_name_lower)"

fun sequence_activities :: "string list \<Rightarrow> Activity list \<Rightarrow> (string \<rightharpoonup> string) \<Rightarrow> (string \<rightharpoonup> string)" where
  "sequence_activities seq [] m = m"
| "sequence_activities seq (a # rest) m =
     (case first_match seq (lower (name a)) of
        None \<Rightarrow> sequence_activities seq rest m
      | Some ceremony \<Rightarrow> sequence_activities seq rest (m(ceremony \<mapsto> activity_id a)))"

text \<open>The second loop: one \<^verbatim>\<open>finish_to_start\<close> edge per pair of consecutive ceremonies of
  the sequence that both have an activity.\<close>

fun sequence_dependencies :: "(string \<rightharpoonup> string) \<Rightarrow> int \<Rightarrow> string list \<Rightarrow> Dependency list" where
  "sequence_dependencies m lag (current # next_ceremony # rest) =
     (case (m current, m next_ceremony) of
        (Some p, Some q) \<Rightarrow>
          [\<lparr>predecessor_id = p, successor_id = q,
            dependency_type = ''finish_to_start'', lag_time = lag\<rparr>]
      | _ \<Rightarrow> []) @ sequence_dependencies m lag (next_ceremony # rest)"
| "sequence_dependencies m lag seq = []"

definition hindu_sequence :: "string list" where
  "hindu_sequence = [''mehendi'', ''haldi'', ''sangeet'', ''wedding'', ''reception'']"

definition muslim_sequence :: "string list" where
  "muslim_sequence = [''nikkah'', ''mehndi'', ''walima'']"

text \<open>\<^verbatim>\<open>DependencyManager._get_cultural_sequence_dependencies\<close>.\<close>

definition get_cultural_sequence_dependencies :: "Activity list \<Rightarrow> Dependency list" where
  "get_cultural_sequence_dependencies activities =
     sequence_dependencies (sequence_activities hindu_sequence activities Map.empty) (hours 2)
       hindu_sequence @
     sequence_dependencies (sequence_activities muslim_sequence activities Map.empty) (hours 1)
       muslim_sequence"

text \<open>Rule 4 of \<^verbatim>\<open>_generate_automatic_dependencies\<close>: each catering activity after the
  first depends on the one listed before it.\<close>

fun catering_chain :: "Activity list \<Rightarrow> Dependency list" where
  "catering_chain (previous # catering # rest) =
     \<lparr>predecessor_id = activity_id previous, successor_id = activity_id catering,
      dependency_type = ''finish_to_start'', lag_time = minutes 30\<rparr>
     # catering_chain (catering # rest)"
| "catering_chain catering_activities = []"

text \<open>\<^verbatim>\<open>DependencyManager._generate_automatic_dependencies\<close>.\<close>

definition generate_automatic_dependencies :: "Activity list \<Rightarrow> Dependency list" where
  "generate_automatic_dependencies activities =
     (let prep_activities = filter (\<lambda>a. activity_type_value (activity_type a) = ''preparation'') activities;
          ceremony_activities = filter (\<lambda>a. activity_type_value (activity_type a) = ''ceremony'') activities;
          cleanup_activities = filter (\<lambda>a. activity_type_value (activity_type a) = ''cleanup'') activities;
          photo_activities = filter (\<lambda>a. activity_type_value (activity_type a) = ''photography'') activities;
          catering_activities = filter (\<lambda>a. activity_type_value (activity_type a) = ''catering'') activities
      in
        concat (map (\<lambda>prep. map (\<lambda>ceremony.
            \<lparr>predecessor_id = activity_id prep, successor_id = activity_id ceremony,
             dependency_type = ''finish_to_start'', lag_time = minutes 15\<rparr>) ceremony_activities)
          prep_activities) @
        concat (map (\<lambda>ceremony. map (\<lambda>cleanup.
            \<lparr>predecessor_id = activity_id ceremony, successor_id = activity_id cleanup,
             dependency_type = ''finish_to_start'', lag_time = minutes 30\<rparr>) cleanup_activities)
          ceremony_activities) @
        concat (map (\<lambda>photo. map (\<lambda>ceremony.
            \<lparr>predecessor_id = activity_id ceremony, successor_id = activity_id photo,
             dependency_type = ''start_to_start'', lag_time = 0\<rparr>)
            (filter (\<lambda>ceremony. priority_value (priority ceremony) \<in> set [''critical'', ''high''])
               ceremony_activities))
          photo_activities) @
        catering_chain catering_activities @
        get_cultural_sequence_dependencies activities)"

fun add_dependencies :: "DependencyGraph \<Rightarrow> Dependency list \<Rightarrow> error + DependencyGraph" where
  "add_dependencies g [] = Inr g"
| "add_dependencies g (d # rest) =
     (case add_dependency g d of Inl e \<Rightarrow> Inl e | Inr g' \<Rightarrow> add_dependencies g' rest)"

text \<open>\<^verbatim>\<open>DependencyManager.create_dependency_graph\<close>.\<close>

definition create_dependency_graph :: "Activity list \<Rightarrow> error + DependencyGraph" where
  "create_dependency_graph activities =
     add_dependencies (fold (\<lambda>a g. add_activity g a) activities empty_graph)
       (generate_automatic_dependencies activities)"

section \<open>Critical path method\<close>

text \<open>\<^verbatim>\<open>next((d for d in graph.dependencies if d.predecessor_id == p and
  d.successor_id == s), None)\<close>: the first such edge of the list.\<close>

definition find_dependency :: "Dependency list \<Rightarrow> string \<Rightarrow> string \<Rightarrow> Dependency option" where
  "find_dependency ds p s = List.find (\<lambda>d. predecessor_id d = p \<and> successor_id d = s) ds"

text \<open>\<^verbatim>\<open>t + lag\<close> on an attribute that may still be \<^verbatim>\<open>None\<close>.\<close>

definition the_time :: "int option \<Rightarrow> error + int" where
  "the_time t = (case t of None \<Rightarrow> Inl TypeError | Some v \<Rightarrow> Inr v)"

text \<open>The candidate start that one predecessor edge gives (\<^verbatim>\<open>_forward_pass\<close>).\<close>

definition forward_candidate :: "Dependency \<Rightarrow> DependencyNode \<Rightarrow> DependencyNode \<Rightarrow> error + int" where
  "forward_candidate d pred_node node =
     (if dependency_type d = ''finish_to_start'' then
        (case the_time (earliest_finish pred_node) of Inl e \<Rightarrow> Inl e
         | Inr t \<Rightarrow> Inr (t + lag_time d))
      else if dependency_type d = ''start_to_start'' then
        (case the_time (earliest_start pred_node) of Inl e \<Rightarrow> Inl e
         | Inr t \<Rightarrow> Inr (t + lag_time d))
      else if dependency_type d = ''finish_to_finish'' then
        (case the_time (earliest_finish pred_node) of Inl e \<Rightarrow> Inl e
         | Inr t \<Rightarrow> Inr (t + lag_time d - node_total_duration node))
      else
        (case the_time (earliest_start pred_node) of Inl e \<Rightarrow> Inl e
         | Inr t \<Rightarrow> Inr (t + lag_time d - node_total_duration node)))"

text \<open>The loop \<^verbatim>\<open>for pred_id in node.predecessors\<close>; the accumulator is the local
  \<^verbatim>\<open>earliest_start\<close>.\<close>

fun forward_predecessors :: "DependencyGraph \<Rightarrow> string \<Rightarrow> DependencyNode \<Rightarrow> int \<Rightarrow> string list
    \<Rightarrow> error + int" where
  "forward_predecessors g aid node es [] = Inr es"
| "forward_predecessors g aid node es (pred_id # rest) =
     (case map_of (nodes g) pred_id of
        None \<Rightarrow> Inl (KeyError pred_id)
      | Some pred_node \<Rightarrow>
          (case find_dependency (dependencies g) pred_id aid of
             None \<Rightarrow> forward_predecessors g aid node es rest
           | Some d \<Rightarrow>
               (case forward_candidate d pred_node node of
                  Inl e \<Rightarrow> Inl e
                | Inr candidate_start \<Rightarrow>
                    forward_predecessors g aid node (max es candidate_start) rest)))"

text \<open>One iteration of \<^verbatim>\<open>for activity_id in topo_order\<close> in \<^verbatim>\<open>_forward_pass\<close>.\<close>

definition forward_step :: "int \<Rightarrow> DependencyGraph \<Rightarrow> string \<Rightarrow> error + DependencyGraph" where
  "forward_step start_time g aid =
     (case map_of (nodes g) aid of
        None \<Rightarrow> Inl (KeyError aid)
      | Some node \<Rightarrow>
          (case (if predecessors node = [] then Inr start_time
                 else forward_predecessors g aid node start_time (predecessors node)) of
             Inl e \<Rightarrow> Inl e
           | Inr es \<Rightarrow>
               Inr (g\<lparr>nodes := AList.update aid
                      (node\<lparr>earliest_start := Some es,
                            earliest_finish := Some (es + node_total_duration node)\<rparr>)
                      (nodes g)\<rparr>)))"

fun forward_loop :: "int \<Rightarrow> DependencyGraph \<Rightarrow> string list \<Rightarrow> error + DependencyGraph" where
  "forward_loop start_time g [] = Inr g"
| "forward_loop start_time g (aid # rest) =
     (case forward_step start_time g aid of
        Inl e \<Rightarrow> Inl e
      | Inr g' \<Rightarrow> forward_loop start_time g' rest)"

text \<open>\<^verbatim>\<open>DependencyManager._forward_pass\<close>.\<close>

definition forward_pass :: "DependencyGraph \<Rightarrow> int \<Rightarrow> error + DependencyGraph" where
  "forward_pass g start_time =
     (case topological_sort g of
        Inl e \<Rightarrow> Inl e
      | Inr topo_order \<Rightarrow> forward_loop start_time g topo_order)"

text \<open>\<^verbatim>\<open>max(node.earliest_finish for node in graph.nodes.values() if node.earliest_finish)\<close>;
  a \<^verbatim>\<open>datetime\<close> is always true, so the filter drops exactly the values \<^verbatim>\<open>None\<close>.\<close>

definition max_earliest_finish :: "DependencyGraph \<Rightarrow> error + int" where
  "max_earliest_finish g =
     (case List.map_filter (\<lambda>(k, node). earliest_finish node) (nodes g) of
        [] \<Rightarrow> Inl (ValueError ''max() arg is an empty sequence'')
      | t # ts \<Rightarrow> Inr (fold max ts t))"

text \<open>The candidate finish that one successor edge gives (\<^verbatim>\<open>_backward_pass\<close>).\<close>

definition backward_candidate :: "Dependency \<Rightarrow> DependencyNode \<Rightarrow> DependencyNode \<Rightarrow> error + int" where
  "backward_candidate d succ_node node =
     (if dependency_type d = ''finish_to_start'' then
        (case the_time (latest_start succ_node) of Inl e \<Rightarrow> Inl e
         | Inr t \<Rightarrow> Inr (t - lag_time d))
      else if dependency_type d = ''start_to_start'' then
        (case the_time (latest_start succ_node) of Inl e \<Rightarrow> Inl e
         | Inr t \<Rightarrow> Inr (t - lag_time d + node_total_duration node))
      else if dependency_type d = ''finish_to_finish'' then
        (case the_time (latest_finish succ_node) of Inl e \<Rightarrow> Inl e
         | Inr t \<Rightarrow> Inr (t - lag_time d))
      else
        (case the_time (latest_finish succ_node) of Inl e \<Rightarrow> Inl e
         | Inr t \<Rightarrow> Inr (t - lag_time d + node_total_duration node)))"

fun backward_successors :: "DependencyGraph \<Rightarrow> string \<Rightarrow> DependencyNode \<Rightarrow> int \<Rightarrow> string list
    \<Rightarrow> error + int" where
  "backward_successors g aid node lf [] = Inr lf"
| "backward_successors g aid node lf (succ_id # rest) =
     (case map_of (nodes g) succ_id of
        None \<Rightarrow> Inl (KeyError succ_id)
      | Some succ_node \<Rightarrow>
          (case find_dependency (dependencies g) aid succ_id of
             None \<Rightarrow> backward_successors g aid node lf rest
           | Some d \<Rightarrow>
               (case backward_candidate d succ_node node of
                  Inl e \<Rightarrow> Inl e
                | Inr candidate_finish \<Rightarrow>
                    backward_successors g aid node (min lf candidate_finish) rest)))"

definition backward_step :: "int \<Rightarrow> DependencyGraph \<Rightarrow> string \<Rightarrow> error + DependencyGraph" where
  "backward_step project_end g aid =
     (case map_of (nodes g) aid of
        None \<Rightarrow> Inl (KeyError aid)
      | Some node \<Rightarrow>
          (case (if successors node = [] then Inr project_end
                 else backward_successors g aid node project_end (successors node)) of
             Inl e \<Rightarrow> Inl e
           | Inr lf \<Rightarrow>
               Inr (g\<lparr>nodes := AList.update aid
                      (node\<lparr>latest_finish := Some lf,
                            latest_start := Some (lf - node_total_duration node)\<rparr>)
                      (nodes g)\<rparr>)))"

fun backward_loop :: "int \<Rightarrow> DependencyGraph \<Rightarrow> string list \<Rightarrow> error + DependencyGraph" where
  "backward_loop project_end g [] = Inr g"
| "backward_loop project_end g (aid # rest) =
     (case backward_step project_end g aid of
        Inl e \<Rightarrow> Inl e
      | Inr g' \<Rightarrow> backward_loop project_end g' rest)"

text \<open>\<^verbatim>\<open>DependencyManager._backward_pass\<close>.\<close>

definition backward_pass :: "DependencyGraph \<Rightarrow> error + DependencyGraph" where
  "backward_pass g =
     (case topological_sort g of
        Inl e \<Rightarrow> Inl e
      | Inr order \<Rightarrow>
          (case max_earliest_finish g of
             Inl e \<Rightarrow> Inl e
           | Inr project_end \<Rightarrow> backward_loop project_end g (rev order)))"

text \<open>\<^verbatim>\<open>DependencyManager._calculate_slack\<close>: a node with either time unset is skipped.\<close>

definition slack_node :: "DependencyNode \<Rightarrow> DependencyNode" where
  "slack_node node =
     (case (latest_start node, earliest_start node) of
        (Some ls, Some es) \<Rightarrow> node\<lparr>slack := ls - es, is_critical := (ls - es = 0)\<rparr>
      | _ \<Rightarrow> node)"

definition calculate_slack :: "DependencyGraph \<Rightarrow> DependencyGraph" where
  "calculate_slack g = g\<lparr>nodes := map (\<lambda>(k, node). (k, slack_node node)) (nodes g)\<rparr>"

text \<open>\<^verbatim>\<open>DependencyManager._find_critical_path\<close>; the sort key is
  \<^verbatim>\<open>graph.nodes[aid].earliest_start or datetime.min\<close>, and \<^verbatim>\<open>list.sort\<close> is stable, as
  \<open>sort_key\<close> is.\<close>

definition start_key :: "DependencyNode option \<Rightarrow> int" where
  "start_key n = (case n of None \<Rightarrow> datetime_min
                  | Some node \<Rightarrow> (case earliest_start node of None \<Rightarrow> datetime_min | Some t \<Rightarrow> t))"

definition find_critical_path :: "DependencyGraph \<Rightarrow> string list" where
  "find_critical_path g =
     sort_key (\<lambda>aid. start_key (map_of (nodes g) aid))
       (map fst (filter (\<lambda>(aid, node). is_critical node) (nodes g)))"

text \<open>\<^verbatim>\<open>DependencyManager.calculate_critical_path\<close>.\<close>

definition calculate_critical_path :: "DependencyGraph \<Rightarrow> int \<Rightarrow> error + DependencyGraph" where
  "calculate_critical_path g start_time =
     (case has_cycle g of
        Inl e \<Rightarrow> Inl e
      | Inr True \<Rightarrow> Inl (ValueError ''Cannot calculate critical path: dependency graph has cycles'')
      | Inr False \<Rightarrow>
          (case forward_pass g start_time of
             Inl e \<Rightarrow> Inl e
           | Inr g1 \<Rightarrow>
               (case backward_pass g1 of
                  Inl e \<Rightarrow> Inl e
                | Inr g2 \<Rightarrow>
                    (let g3 = calculate_slack g2;
                         g4 = g3\<lparr>critical_path := find_critical_path g3\<rparr>
                     in if nodes g4 = [] then Inr g4
                        else (case max_earliest_finish g4 of
                                Inl e \<Rightarrow> Inl e
                              | Inr max_finish \<Rightarrow>
                                  Inr (g4\<lparr>total_duration := max_finish - start_time\<rparr>))))))"

lemma map_of_map_keyed:
  "map_of (map (\<lambda>(k, v). (k, f k v)) xs) k = map_option (f k) (map_of xs k)"
  by (induction xs) auto

lemma map_of_add_successor:
  "map_of (add_successor k s ns) k' =
     map_option (\<lambda>n. if k' = k then n\<lparr>successors := set_add s (successors n)\<rparr> else n) (map_of ns k')"
proof -
  have "add_successor k s ns = map (\<lambda>(k', n). (k', if k' = k then n\<lparr>successors := set_add s (successors n)\<rparr> else n)) ns"
    unfolding add_successor_def by (rule map_cong) auto
  then show ?thesis by (simp only: map_of_map_keyed)
qed

lemma map_of_add_predecessor:
  "map_of (add_predecessor k p ns) k' =
     map_option (\<lambda>n. if k' = k then n\<lparr>predecessors := set_add p (predecessors n)\<rparr> else n) (map_of ns k')"
proof -
  have "add_predecessor k p ns = map (\<lambda>(k', n). (k', if k' = k then n\<lparr>predecessors := set_add p (predecessors n)\<rparr> else n)) ns"
    unfolding add_predecessor_def by (rule map_cong) auto
  then show ?thesis by (simp only: map_of_map_keyed)
qed

lemma keys_add_successor [simp]: "map fst (add_successor k s ns) = map fst ns"
  by (induction ns) (auto simp: add_successor_def)

lemma keys_add_predecessor [simp]: "map fst (add_predecessor k s ns) = map fst ns"
  by (induction ns) (auto simp: add_predecessor_def)

lemma set_set_add [simp]: "set (set_add x xs) = insert x (set xs)"
  by (auto simp: set_add_def)

lemma distinct_set_add [simp]: "distinct (set_add x xs) = distinct xs"
  by (auto simp: set_add_def)

section \<open>Claims about building the graph\<close>

text \<open>An activity of one hour that satisfies the field invariants, with the id as its name.\<close>

definition plain_activity :: "string \<Rightarrow> Activity" where
  "plain_activity i = \<lparr>activity_id = i, name = i, activity_type = CEREMONY, duration = hours 1,
     priority = MEDIUM, required_vendors = [], estimated_cost = 0, setup_time = 0,
     cleanup_time = 0\<rparr>"

text \<open>An activity that violates all four: the id is a no-break space, the name a space, the
  duration zero and the cost negative.\<close>

definition invalid_activity :: Activity where
  "invalid_activity = \<lparr>activity_id = [CHR 0xA0], name = '' '', activity_type = CEREMONY,
     duration = 0, priority = MEDIUM, required_vendors = [], estimated_cost = - 1, setup_time = 0,
     cleanup_time = 0\<rparr>"

text \<open>
  C6, as stated, fails, in both halves. \<open>add_activity\<close> is not an upsert: a second activity
  under an id that is already a key does not replace the stored one, also when both
  activities are valid. And \<open>add_activity\<close> checks nothing: the activity that violates all
  four field invariants is stored as a node.
\<close>

theorem add_activity_accepts_invalid:
  "Activity_validate (plain_activity ''a'') = []
   \<and> Activity_validate ((plain_activity ''a'')\<lparr>name := ''renamed''\<rparr>) = []
   \<and> add_activity (add_activity empty_graph (plain_activity ''a''))
         ((plain_activity ''a'')\<lparr>name := ''renamed''\<rparr>)
       = add_activity empty_graph (plain_activity ''a'')
   \<and> map (\<lambda>(k, n). (k, name (activity n)))
         (nodes (add_activity (add_activity empty_graph (plain_activity ''a''))
            ((plain_activity ''a'')\<lparr>name := ''renamed''\<rparr>)))
       = [(''a'', ''a'')]
   \<and> Activity_validate invalid_activity =
       [''Activity ID is required'', ''Activity name is required'', ''Duration must be positive'',
        ''Estimated cost cannot be negative'']
   \<and> nodes (add_activity empty_graph invalid_activity) = [([CHR 0xA0], new_node invalid_activity)]"
  by (simp add: Activity_validate_def invalid_activity_def plain_activity_def blank_def
      is_space_def add_activity_def empty_graph_def new_node_def hours_def
      microseconds_per_minute_def)

text \<open>
  C6, amended: for every graph and every activity that satisfies its field invariants,
  \<open>add_activity\<close> is an idempotent insert-if-absent, not an upsert. Adding the activity
  twice is adding it once; the key order gains the id at the end exactly when it was absent;
  the node under the id is a fresh node of the activity when the id was absent and the node
  already stored, unchanged, otherwise; no other node and no other field of the graph
  changes. Nothing is said here of an activity that violates its field invariants.
\<close>

theorem add_activity_insert_if_absent:
  assumes "Activity_validate a = []"
  shows "add_activity (add_activity g a) a = add_activity g a
   \<and> map fst (nodes (add_activity g a)) =
       (if activity_id a \<in> fst ` set (nodes g) then map fst (nodes g)
        else map fst (nodes g) @ [activity_id a])
   \<and> (\<forall>k. map_of (nodes (add_activity g a)) k =
       (if k = activity_id a \<and> activity_id a \<notin> fst ` set (nodes g) then Some (new_node a)
        else map_of (nodes g) k))
   \<and> dependencies (add_activity g a) = dependencies g
   \<and> critical_path (add_activity g a) = critical_path g
   \<and> total_duration (add_activity g a) = total_duration g"
proof -
  have m: "map_of (nodes g @ [(i, v)]) k = (if k = i \<and> i \<notin> fst ` set (nodes g) then Some v else map_of (nodes g) k)"
    for i k and v :: DependencyNode
  proof (cases "map_of (nodes g) k")
    case None
    then have "k \<notin> fst ` set (nodes g)" by (simp add: map_of_eq_None_iff)
    with None show ?thesis by (auto simp: map_add_def)
  next
    case (Some n)
    then have "k \<in> fst ` set (nodes g)" by (force dest: map_of_SomeD)
    with Some show ?thesis by (auto simp: map_add_def)
  qed
  show ?thesis
    using m[of "activity_id a" "new_node a"] by (simp add: add_activity_def)
qed

text \<open>
  Witness for C6: a valid activity added to the empty graph and added again under another
  name; the hypothesis holds for both, and the stored name stays the first.
\<close>

theorem add_activity_insert_if_absent_witness:
  "Activity_validate ((plain_activity ''a'')\<lparr>name := ''renamed''\<rparr>) = []
   \<and> map_of (nodes (add_activity (add_activity empty_graph (plain_activity ''a''))
         ((plain_activity ''a'')\<lparr>name := ''renamed''\<rparr>))) ''a''
       = Some (new_node (plain_activity ''a''))
   \<and> map fst (nodes (add_activity (add_activity empty_graph (plain_activity ''a''))
         ((plain_activity ''a'')\<lparr>name := ''renamed''\<rparr>))) = [''a'']"
proof -
  let ?a = "plain_activity ''a''" and ?b = "(plain_activity ''a'')\<lparr>name := ''renamed''\<rparr>"
  let ?g = "add_activity empty_graph ?a"
  have v: "Activity_validate ?b = []"
    by (simp add: Activity_validate_def plain_activity_def blank_def is_space_def hours_def
        microseconds_per_minute_def)
  have i: "activity_id ?b = ''a''" by (simp add: plain_activity_def)
  have n: "nodes ?g = [(''a'', new_node ?a)]"
    by (simp add: add_activity_def empty_graph_def plain_activity_def)
  from add_activity_insert_if_absent[OF v, of ?g] v show ?thesis
    by (simp add: i n)
qed

text \<open>The condition under which \<open>add_dependency\<close> raises.\<close>

definition dependency_rejected :: "DependencyGraph \<Rightarrow> Dependency \<Rightarrow> bool" where
  "dependency_rejected g d =
     (predecessor_id d = [] \<or> successor_id d = [] \<or> predecessor_id d = successor_id d
      \<or> dependency_type d \<notin> set dependency_types
      \<or> predecessor_id d \<notin> fst ` set (nodes g) \<or> successor_id d \<notin> fst ` set (nodes g))"

lemma Dependency_validate_Nil:
  "Dependency_validate d = [] \<longleftrightarrow>
     predecessor_id d \<noteq> [] \<and> successor_id d \<noteq> [] \<and> predecessor_id d \<noteq> successor_id d
     \<and> dependency_type d \<in> set dependency_types"
  by (auto simp: Dependency_validate_def)

lemma add_dependency_Inr:
  "add_dependency g d = Inr g' \<longleftrightarrow>
     \<not> dependency_rejected g d \<and>
     g' = g\<lparr>dependencies := dependencies g @ [d],
            nodes := add_predecessor (successor_id d) (predecessor_id d)
                       (add_successor (predecessor_id d) (successor_id d) (nodes g))\<rparr>"
  unfolding add_dependency_def dependency_rejected_def Let_def
  using Dependency_validate_Nil[of d] by (auto split: if_splits)

lemma add_dependency_Inl:
  "(\<exists>e. add_dependency g d = Inl e) \<longleftrightarrow> dependency_rejected g d"
  using add_dependency_Inr[of g d] by (cases "add_dependency g d") auto

lemma add_dependency_ValueError:
  "add_dependency g d = Inl e \<Longrightarrow> \<exists>msg. e = ValueError msg"
  unfolding add_dependency_def Let_def by (auto split: if_splits)

text \<open>
  C7, amended: \<open>add_dependency\<close> fails, with a \<^verbatim>\<open>ValueError\<close>, exactly when the
  predecessor id or the successor id is the empty string, the two ids are equal, the type is
  not one of the four kinds, or one of the ids is not a key of the node map. Otherwise it
  returns the graph with the edge appended to the dependency list, the successor id added to
  the successor set of the predecessor's node, the predecessor id added to the predecessor
  set of the successor's node, and nothing else changed.
\<close>

theorem add_dependency_result:
  "((\<exists>msg. add_dependency g d = Inl (ValueError msg)) \<longleftrightarrow> dependency_rejected g d)
   \<and> (\<not> dependency_rejected g d \<longrightarrow>
        (\<exists>g'. add_dependency g d = Inr g'
          \<and> dependencies g' = dependencies g @ [d]
          \<and> map fst (nodes g') = map fst (nodes g)
          \<and> (\<forall>k. map_of (nodes g') k =
                map_option (\<lambda>n. n\<lparr>successors := (if k = predecessor_id d
                                        then set_add (successor_id d) (successors n) else successors n),
                                   predecessors := (if k = successor_id d
                                        then set_add (predecessor_id d) (predecessors n) else predecessors n)\<rparr>)
                  (map_of (nodes g) k))
          \<and> critical_path g' = critical_path g \<and> total_duration g' = total_duration g))"
proof (intro conjI impI)
  show "(\<exists>msg. add_dependency g d = Inl (ValueError msg)) \<longleftrightarrow> dependency_rejected g d"
    using add_dependency_Inl[of g d] add_dependency_ValueError[of g d] by blast
next
  assume ok: "\<not> dependency_rejected g d"
  define g' where "g' = g\<lparr>dependencies := dependencies g @ [d],
            nodes := add_predecessor (successor_id d) (predecessor_id d)
                       (add_successor (predecessor_id d) (successor_id d) (nodes g))\<rparr>"
  have r: "add_dependency g d = Inr g'"
    using ok by (simp add: add_dependency_Inr g'_def)
  have m: "map_of (nodes g') k =
                map_option (\<lambda>n. n\<lparr>successors := (if k = predecessor_id d
                                        then set_add (successor_id d) (successors n) else successors n),
                                   predecessors := (if k = successor_id d
                                        then set_add (predecessor_id d) (predecessors n) else predecessors n)\<rparr>)
                  (map_of (nodes g) k)" for k
    by (cases "map_of (nodes g) k")
       (simp_all add: g'_def map_of_add_predecessor map_of_add_successor)
  show "\<exists>g'. add_dependency g d = Inr g'
          \<and> dependencies g' = dependencies g @ [d]
          \<and> map fst (nodes g') = map fst (nodes g)
          \<and> (\<forall>k. map_of (nodes g') k =
                map_option (\<lambda>n. n\<lparr>successors := (if k = predecessor_id d
                                        then set_add (successor_id d) (successors n) else successors n),
                                   predecessors := (if k = successor_id d
                                        then set_add (predecessor_id d) (predecessors n) else predecessors n)\<rparr>)
                  (map_of (nodes g) k))
          \<and> critical_path g' = critical_path g \<and> total_duration g' = total_duration g"
    using r m by (intro exI[of _ g']) (simp add: g'_def)
qed

definition edge :: "string \<Rightarrow> string \<Rightarrow> int \<Rightarrow> Dependency" where
  "edge p s lag = \<lparr>predecessor_id = p, successor_id = s, dependency_type = ''finish_to_start'',
     lag_time = lag\<rparr>"

text \<open>
  C7, as stated, fails: \<open>add_activity\<close> accepts the empty id, so a graph can hold a node
  whose key is the empty string. An edge from that node to another node, of a valid type, is
  none of the three cases the claim lists, and \<open>add_dependency\<close> still rejects it.
\<close>

theorem add_dependency_empty_id_rejected:
  "'''' \<in> fst ` set (nodes (add_activity (add_activity empty_graph (plain_activity '''')) (plain_activity ''b'')))
   \<and> ''b'' \<in> fst ` set (nodes (add_activity (add_activity empty_graph (plain_activity '''')) (plain_activity ''b'')))
   \<and> predecessor_id (edge '''' ''b'' 0) \<noteq> successor_id (edge '''' ''b'' 0)
   \<and> dependency_type (edge '''' ''b'' 0) \<in> set dependency_types
   \<and> add_dependency (add_activity (add_activity empty_graph (plain_activity '''')) (plain_activity ''b''))
        (edge '''' ''b'' 0)
      = Inl (ValueError ''Invalid dependency: Predecessor ID is required'')"
  by (simp add: add_activity_def empty_graph_def plain_activity_def edge_def add_dependency_def
      Dependency_validate_def dependency_types_def)

text \<open>Witness for C7: an accepted edge between two stored activities.\<close>

theorem add_dependency_result_witness:
  "\<not> dependency_rejected (add_activity (add_activity empty_graph (plain_activity ''a'')) (plain_activity ''b'')) (edge ''a'' ''b'' 0)
   \<and> (\<exists>g'. add_dependency (add_activity (add_activity empty_graph (plain_activity ''a'')) (plain_activity ''b'')) (edge ''a'' ''b'' 0) = Inr g'
         \<and> dependencies g' = [edge ''a'' ''b'' 0]
         \<and> map_option successors (map_of (nodes g') ''a'') = Some [''b'']
         \<and> map_option predecessors (map_of (nodes g') ''b'') = Some [''a''])"
proof -
  let ?g = "add_activity (add_activity empty_graph (plain_activity ''a'')) (plain_activity ''b'')"
  have ok: "\<not> dependency_rejected ?g (edge ''a'' ''b'' 0)"
    by (simp add: dependency_rejected_def add_activity_def empty_graph_def plain_activity_def
        edge_def dependency_types_def)
  from add_dependency_result[of ?g "edge ''a'' ''b'' 0"] ok
  obtain g' where g': "add_dependency ?g (edge ''a'' ''b'' 0) = Inr g'"
    "dependencies g' = dependencies ?g @ [edge ''a'' ''b'' 0]"
    "\<And>k. map_of (nodes g') k =
                map_option (\<lambda>n. n\<lparr>successors := (if k = predecessor_id (edge ''a'' ''b'' 0)
                                        then set_add (successor_id (edge ''a'' ''b'' 0)) (successors n) else successors n),
                                   predecessors := (if k = successor_id (edge ''a'' ''b'' 0)
                                        then set_add (predecessor_id (edge ''a'' ''b'' 0)) (predecessors n) else predecessors n)\<rparr>)
                  (map_of (nodes ?g) k)"
    by blast
  have "dependencies g' = [edge ''a'' ''b'' 0]"
    using g'(2) by (simp add: add_activity_def empty_graph_def)
  moreover have "map_option successors (map_of (nodes g') ''a'') = Some [''b'']"
    unfolding g'(3) by (simp add: add_activity_def empty_graph_def plain_activity_def edge_def new_node_def set_add_def)
  moreover have "map_option predecessors (map_of (nodes g') ''b'') = Some [''a'']"
    unfolding g'(3) by (simp add: add_activity_def empty_graph_def plain_activity_def edge_def new_node_def set_add_def)
  ultimately show ?thesis using ok g'(1) by blast
qed

section \<open>Well-formed graphs\<close>

declare dfs.simps [simp del]

definition node_ids :: "DependencyGraph \<Rightarrow> string list" where
  "node_ids g = map fst (nodes g)"

definition successor_relation :: "DependencyGraph \<Rightarrow> (string \<times> string) set" where
  "successor_relation g = {(x, y). \<exists>n. map_of (nodes g) x = Some n \<and> y \<in> set (successors n)}"

definition successors_closed :: "DependencyGraph \<Rightarrow> bool" where
  "successors_closed g = (\<forall>(k, n) \<in> set (nodes g). set (successors n) \<subseteq> set (node_ids g))"

lemma map_of_node_ids: "map_of (nodes g) k = Some n \<Longrightarrow> k \<in> set (node_ids g)"
  by (force simp: node_ids_def dest: map_of_SomeD)

lemma node_ids_map_of: "k \<in> set (node_ids g) \<Longrightarrow> \<exists>n. map_of (nodes g) k = Some n \<and> (k, n) \<in> set (nodes g)"
  unfolding node_ids_def
  by (metis map_of_eq_None_iff map_of_SomeD not_None_eq set_map)

lemma successors_closedD:
  "successors_closed g \<Longrightarrow> map_of (nodes g) k = Some n \<Longrightarrow> set (successors n) \<subseteq> set (node_ids g)"
  unfolding successors_closed_def by (auto dest!: map_of_SomeD)

lemma dfs_no_error:
  "successors_closed g \<Longrightarrow> dom colors = set (node_ids g) \<Longrightarrow> u \<in> set (node_ids g)
   \<Longrightarrow> \<exists>b c'. dfs g colors u = Inr (b, c') \<and> dom c' = set (node_ids g)"
  "successors_closed g \<Longrightarrow> dom colors = set (node_ids g) \<Longrightarrow> set ss \<subseteq> set (node_ids g)
   \<Longrightarrow> \<exists>b c'. dfs_successors g colors ss = Inr (b, c') \<and> dom c' = set (node_ids g)"
proof (induction g colors u and g colors ss rule: dfs_dfs_successors.induct)
  case (1 g colors node_id)
  from "1.prems" obtain c where c: "colors node_id = Some c" by auto
  from "1.prems" obtain n where n: "map_of (nodes g) node_id = Some n"
    by (auto dest: node_ids_map_of)
  show ?case
  proof (cases "c = GRAY \<or> c = BLACK")
    case True
    with c "1.prems" show ?thesis by (auto simp: dfs.simps)
  next
    case False
    have d: "dom (colors(node_id \<mapsto> GRAY)) = set (node_ids g)"
      using "1.prems" by auto
    from False have ng: "c \<noteq> GRAY" and nb: "c \<noteq> BLACK" by simp_all
    from "1.IH"[OF c ng nb n "1.prems"(1) d successors_closedD[OF "1.prems"(1) n]]
    obtain b c' where r: "dfs_successors g (colors(node_id \<mapsto> GRAY)) (successors n) = Inr (b, c')"
      "dom c' = set (node_ids g)" by blast
    have "dom (c'(node_id \<mapsto> BLACK)) = set (node_ids g)"
      using r(2) "1.prems"(3) by auto
    with c n ng nb r show ?thesis by (cases b) (auto simp: dfs.simps)
  qed
next
  case (2 g colors)
  then show ?case by auto
next
  case (3 g colors succ_id rest)
  from "3.IH"(1) "3.prems" obtain b c1 where r1: "dfs g colors succ_id = Inr (b, c1)"
    "dom c1 = set (node_ids g)" by auto
  show ?case
  proof (cases b)
    case True
    with r1 show ?thesis by auto
  next
    case False
    from "3.IH"(2)[OF r1(1) refl False "3.prems"(1) r1(2)] "3.prems"(3)
    obtain b' c' where "dfs_successors g c1 rest = Inr (b', c')" "dom c' = set (node_ids g)" by auto
    with r1 False show ?thesis by auto
  qed
qed

lemma dfs_sound:
  "dfs g colors u = Inr (b, c') \<Longrightarrow> \<forall>x. colors x = Some GRAY \<longrightarrow> (x, u) \<in> (successor_relation g)\<^sup>+
   \<Longrightarrow> (b \<longrightarrow> \<not> acyclic (successor_relation g)) \<and> (\<not> b \<longrightarrow> (\<forall>x. c' x = Some GRAY \<longleftrightarrow> colors x = Some GRAY))"
  "dfs_successors g colors ss = Inr (b, c')
   \<Longrightarrow> \<forall>x. colors x = Some GRAY \<longrightarrow> (\<forall>s \<in> set ss. (x, s) \<in> (successor_relation g)\<^sup>+)
   \<Longrightarrow> (b \<longrightarrow> \<not> acyclic (successor_relation g)) \<and> (\<not> b \<longrightarrow> (\<forall>x. c' x = Some GRAY \<longleftrightarrow> colors x = Some GRAY))"
proof (induction g colors u and g colors ss arbitrary: b c' and b c' rule: dfs_dfs_successors.induct)
  case (1 g colors node_id)
  from "1.prems"(1) obtain c where c: "colors node_id = Some c"
    by (auto simp: dfs.simps split: option.splits)
  show ?case
  proof (cases c)
    case GRAY
    with c "1.prems"(2) have "(node_id, node_id) \<in> (successor_relation g)\<^sup>+" by simp
    then have "\<not> acyclic (successor_relation g)" by (auto simp: acyclic_def)
    with c GRAY "1.prems"(1) show ?thesis by (simp add: dfs.simps)
  next
    case BLACK
    with c "1.prems"(1) show ?thesis by (auto simp: dfs.simps)
  next
    case WHITE
    from "1.prems"(1) c WHITE obtain n where n: "map_of (nodes g) node_id = Some n"
      by (auto simp: dfs.simps split: option.splits)
    from "1.prems"(1) c WHITE n obtain b1 c1 where
      r: "dfs_successors g (colors(node_id \<mapsto> GRAY)) (successors n) = Inr (b1, c1)"
      by (auto simp: dfs.simps split: sum.splits)
    have edge: "(node_id, s) \<in> successor_relation g" if "s \<in> set (successors n)" for s
      using n that by (auto simp: successor_relation_def)
    have pre: "\<forall>x. (colors(node_id \<mapsto> GRAY)) x = Some GRAY \<longrightarrow>
                 (\<forall>s \<in> set (successors n). (x, s) \<in> (successor_relation g)\<^sup>+)"
    proof (intro allI impI ballI)
      fix x s assume x: "(colors(node_id \<mapsto> GRAY)) x = Some GRAY" and s: "s \<in> set (successors n)"
      show "(x, s) \<in> (successor_relation g)\<^sup>+"
      proof (cases "x = node_id")
        case True
        with edge[OF s] show ?thesis by auto
      next
        case False
        with x have "colors x = Some GRAY" by simp
        with "1.prems"(2) have "(x, node_id) \<in> (successor_relation g)\<^sup>+" by simp
        then show ?thesis using edge[OF s] by (rule trancl_into_trancl)
      qed
    qed
    have ih: "(b1 \<longrightarrow> \<not> acyclic (successor_relation g)) \<and>
              (\<not> b1 \<longrightarrow> (\<forall>x. c1 x = Some GRAY \<longleftrightarrow> (colors(node_id \<mapsto> GRAY)) x = Some GRAY))"
      using "1.IH"[OF c _ _ n r pre] WHITE by simp
    show ?thesis
    proof (cases b1)
      case True
      with "1.prems"(1) c WHITE n r ih show ?thesis by (simp add: dfs.simps)
    next
      case False
      with "1.prems"(1) c WHITE n r have "b = False" "c' = c1(node_id \<mapsto> BLACK)"
        by (auto simp: dfs.simps)
      with ih False c WHITE show ?thesis by auto
    qed
  qed
next
  case (2 g colors)
  then show ?case by simp
next
  case (3 g colors succ_id rest)
  from "3.prems"(1) obtain b1 c1 where r1: "dfs g colors succ_id = Inr (b1, c1)"
    by (auto split: sum.splits)
  have ih1: "(b1 \<longrightarrow> \<not> acyclic (successor_relation g)) \<and>
             (\<not> b1 \<longrightarrow> (\<forall>x. c1 x = Some GRAY \<longleftrightarrow> colors x = Some GRAY))"
    using "3.IH"(1)[OF r1] "3.prems"(2) by simp
  show ?case
  proof (cases b1)
    case True
    with "3.prems"(1) r1 ih1 show ?thesis by simp
  next
    case False
    with "3.prems"(1) r1 have r2: "dfs_successors g c1 rest = Inr (b, c')" by simp
    have "\<forall>x. c1 x = Some GRAY \<longrightarrow> (\<forall>s \<in> set rest. (x, s) \<in> (successor_relation g)\<^sup>+)"
      using ih1 False "3.prems"(2) by simp
    from "3.IH"(2)[OF r1 refl False r2 this] ih1 False show ?thesis by simp
  qed
qed

lemma has_cycle_loop_sound:
  "successors_closed g \<Longrightarrow> dom colors = set (node_ids g) \<Longrightarrow> set ks \<subseteq> set (node_ids g)
   \<Longrightarrow> \<forall>x. colors x \<noteq> Some GRAY
   \<Longrightarrow> \<exists>b. has_cycle_loop g colors ks = Inr b \<and> (b \<longrightarrow> \<not> acyclic (successor_relation g))"
proof (induction ks arbitrary: colors)
  case Nil
  then show ?case by auto
next
  case (Cons k ks)
  from Cons.prems have "k \<in> dom colors" by simp
  then obtain c where c: "colors k = Some c" by auto
  show ?case
  proof (cases "c = WHITE")
    case False
    with c Cons show ?thesis by auto
  next
    case True
    from dfs_no_error(1)[OF Cons.prems(1,2), of k] Cons.prems(3)
    obtain b c1 where r: "dfs g colors k = Inr (b, c1)" "dom c1 = set (node_ids g)" by auto
    from dfs_sound(1)[OF r(1)] Cons.prems(4)
    have s: "(b \<longrightarrow> \<not> acyclic (successor_relation g)) \<and> (\<not> b \<longrightarrow> (\<forall>x. c1 x \<noteq> Some GRAY))"
      by simp
    show ?thesis
    proof (cases b)
      case True
      with c \<open>c = WHITE\<close> r s show ?thesis by auto
    next
      case False
      with s have "\<forall>x. c1 x \<noteq> Some GRAY" by simp
      from Cons.IH[OF Cons.prems(1) r(2) _ this] Cons.prems(3)
      obtain b' where "has_cycle_loop g c1 ks = Inr b'" "b' \<longrightarrow> \<not> acyclic (successor_relation g)"
        by auto
      with c \<open>c = WHITE\<close> r False show ?thesis by auto
    qed
  qed
qed

lemma has_cycle_sound:
  assumes "successors_closed g"
  shows "\<exists>b. has_cycle g = Inr b \<and> (b \<longrightarrow> \<not> acyclic (successor_relation g))"
proof -
  let ?colors = "map_of (map (\<lambda>(node_id, node). (node_id, WHITE)) (nodes g))"
  have d: "dom ?colors = set (node_ids g)"
    by (force simp: dom_map_of_conv_image_fst node_ids_def)
  have w: "\<forall>x. ?colors x \<noteq> Some GRAY"
    by (auto dest!: map_of_SomeD)
  from has_cycle_loop_sound[OF assms d _ w, of "map fst (nodes g)"]
  show ?thesis by (simp add: has_cycle_def node_ids_def)
qed

definition dependency_relation :: "DependencyGraph \<Rightarrow> (string \<times> string) set" where
  "dependency_relation g = (\<lambda>d. (predecessor_id d, successor_id d)) ` set (dependencies g)"

definition graph_inv :: "DependencyGraph \<Rightarrow> bool" where
  "graph_inv g \<longleftrightarrow>
     distinct (node_ids g)
     \<and> (\<forall>(k, n) \<in> set (nodes g).
           distinct (predecessors n) \<and> distinct (successors n)
           \<and> set (successors n) = set (map successor_id (filter (\<lambda>d. predecessor_id d = k) (dependencies g)))
           \<and> set (predecessors n) = set (map predecessor_id (filter (\<lambda>d. successor_id d = k) (dependencies g))))
     \<and> (\<forall>d \<in> set (dependencies g). predecessor_id d \<in> set (node_ids g) \<and> successor_id d \<in> set (node_ids g))"

definition predecessor_set :: "DependencyGraph \<Rightarrow> string \<Rightarrow> string set" where
  "predecessor_set g y = (case map_of (nodes g) y of None \<Rightarrow> {} | Some n \<Rightarrow> set (predecessors n))"

lemma graph_inv_node:
  assumes "graph_inv g" "map_of (nodes g) k = Some n"
  shows "distinct (predecessors n)" "distinct (successors n)"
    "y \<in> set (successors n) \<longleftrightarrow> (k, y) \<in> dependency_relation g"
    "p \<in> set (predecessors n) \<longleftrightarrow> (p, k) \<in> dependency_relation g"
proof -
  from assms(2) have "(k, n) \<in> set (nodes g)" by (rule map_of_SomeD)
  with assms(1) have *: "distinct (predecessors n)" "distinct (successors n)"
    "set (successors n) = set (map successor_id (filter (\<lambda>d. predecessor_id d = k) (dependencies g)))"
    "set (predecessors n) = set (map predecessor_id (filter (\<lambda>d. successor_id d = k) (dependencies g)))"
    unfolding graph_inv_def by auto
  show "distinct (predecessors n)" "distinct (successors n)" by (rule *)+
  show "y \<in> set (successors n) \<longleftrightarrow> (k, y) \<in> dependency_relation g"
    unfolding *(3) dependency_relation_def by force
  show "p \<in> set (predecessors n) \<longleftrightarrow> (p, k) \<in> dependency_relation g"
    unfolding *(4) dependency_relation_def by force
qed

lemma graph_inv_relation_ids:
  "graph_inv g \<Longrightarrow> (p, y) \<in> dependency_relation g \<Longrightarrow> p \<in> set (node_ids g) \<and> y \<in> set (node_ids g)"
  unfolding graph_inv_def dependency_relation_def by auto

lemma graph_inv_closed: "graph_inv g \<Longrightarrow> successors_closed g"
  unfolding successors_closed_def
proof (intro ballI, clarify)
  fix k n y assume g: "graph_inv g" and kn: "(k, n) \<in> set (nodes g)" and y: "y \<in> set (successors n)"
  from g have "distinct (map fst (nodes g))" by (simp add: graph_inv_def node_ids_def)
  with kn have "map_of (nodes g) k = Some n" by simp
  from graph_inv_node(3)[OF g this] y have "(k, y) \<in> dependency_relation g" by simp
  with g show "y \<in> set (node_ids g)" by (simp add: graph_inv_relation_ids)
qed

lemma graph_inv_successor_relation:
  assumes "graph_inv g"
  shows "successor_relation g = dependency_relation g"
proof (intro set_eqI iffI; clarify)
  fix x y assume "(x, y) \<in> successor_relation g"
  then obtain n where "map_of (nodes g) x = Some n" "y \<in> set (successors n)"
    by (auto simp: successor_relation_def)
  with graph_inv_node(3)[OF assms] show "(x, y) \<in> dependency_relation g" by simp
next
  fix x y assume xy: "(x, y) \<in> dependency_relation g"
  with assms have "x \<in> set (node_ids g)" by (simp add: graph_inv_relation_ids)
  then obtain n where n: "map_of (nodes g) x = Some n" by (auto dest: node_ids_map_of)
  with graph_inv_node(3)[OF assms n] xy show "(x, y) \<in> successor_relation g"
    by (auto simp: successor_relation_def)
qed

lemma predecessor_set_iff:
  "graph_inv g \<Longrightarrow> y \<in> set (node_ids g) \<Longrightarrow> p \<in> predecessor_set g y \<longleftrightarrow> (p, y) \<in> dependency_relation g"
  by (auto simp: predecessor_set_def graph_inv_node(4) dest!: node_ids_map_of)

lemma finite_predecessor_set [simp]: "finite (predecessor_set g y)"
  by (simp add: predecessor_set_def split: option.splits)

lemma process_successors_spec:
  "distinct ss \<Longrightarrow> set ss \<subseteq> fst ` set ind
   \<Longrightarrow> \<exists>ind'. process_successors ind q ss = Inr (ind', q @ filter (\<lambda>s. map_of ind s = Some 1) ss)
          \<and> fst ` set ind' = fst ` set ind
          \<and> (\<forall>y. map_of ind' y = (if y \<in> set ss then map_option (\<lambda>d. d - 1) (map_of ind y) else map_of ind y))"
proof (induction ss arbitrary: ind q)
  case Nil
  then show ?case by simp
next
  case (Cons s ss)
  from Cons.prems have sin: "s \<in> fst ` set ind" by simp
  then obtain d where d: "map_of ind s = Some d"
    by (cases "map_of ind s") (simp_all add: map_of_eq_None_iff)
  define ind1 where "ind1 = AList.update s (d - 1) ind"
  define q1 where "q1 = (if d - 1 = 0 then q @ [s] else q)"
  have m1: "map_of ind1 y = (if y = s then Some (d - 1) else map_of ind y)" for y
    unfolding ind1_def by (simp add: update_conv')
  have k1: "fst ` set ind1 = fst ` set ind"
    unfolding ind1_def using sin by (auto simp: dom_update)
  from Cons.prems have ds: "distinct ss" and ns: "s \<notin> set ss" by simp_all
  from Cons.prems have ss: "set ss \<subseteq> fst ` set ind1" unfolding k1 by simp
  from Cons.IH[OF ds ss, of q1] obtain ind' where
    r: "process_successors ind1 q1 ss = Inr (ind', q1 @ filter (\<lambda>x. map_of ind1 x = Some 1) ss)"
    and k: "fst ` set ind' = fst ` set ind1"
    and m: "\<And>y. map_of ind' y = (if y \<in> set ss then map_option (\<lambda>d. d - 1) (map_of ind1 y) else map_of ind1 y)"
    by blast
  have f: "filter (\<lambda>x. map_of ind1 x = Some 1) ss = filter (\<lambda>x. map_of ind x = Some 1) ss"
  proof (rule filter_cong[OF refl])
    fix x assume "x \<in> set ss"
    with ns have "x \<noteq> s" by auto
    then show "(map_of ind1 x = Some 1) = (map_of ind x = Some 1)" by (simp add: m1)
  qed
  have q: "q1 @ filter (\<lambda>x. map_of ind x = Some 1) ss = q @ filter (\<lambda>x. map_of ind x = Some 1) (s # ss)"
    unfolding q1_def using d by simp
  have step: "process_successors ind q (s # ss) = process_successors ind1 q1 ss"
    using d by (simp add: ind1_def q1_def)
  have res: "process_successors ind q (s # ss) = Inr (ind', q @ filter (\<lambda>x. map_of ind x = Some 1) (s # ss))"
    unfolding step r f q ..
  have m': "map_of ind' y = (if y \<in> set (s # ss) then map_option (\<lambda>d. d - 1) (map_of ind y) else map_of ind y)" for y
  proof (cases "y = s")
    case True
    with ns have "map_of ind' y = map_of ind1 s" using m[of y] by simp
    with True d show ?thesis by (simp add: m1)
  next
    case False
    then show ?thesis using m[of y] by (simp add: m1)
  qed
  have kk: "fst ` set ind' = fst ` set ind" using k k1 by simp
  show ?case
    by (rule exI[of _ ind'], intro conjI allI) (rule res, rule kk, rule m')
qed

definition topo_ordered :: "DependencyGraph \<Rightarrow> string list \<Rightarrow> bool" where
  "topo_ordered g res \<longleftrightarrow> (\<forall>i < length res. predecessor_set g (res ! i) \<subseteq> set (take i res))"

definition kahn_inv :: "DependencyGraph \<Rightarrow> (string \<times> int) list \<Rightarrow> string list \<Rightarrow> string list \<Rightarrow> bool" where
  "kahn_inv g ind q res \<longleftrightarrow>
     fst ` set ind = set (node_ids g)
     \<and> distinct (res @ q) \<and> set (res @ q) \<subseteq> set (node_ids g)
     \<and> (\<forall>y \<in> set (node_ids g). map_of ind y = Some (int (card (predecessor_set g y - set res))))
     \<and> (\<forall>y \<in> set (node_ids g). y \<in> set (res @ q) \<longleftrightarrow> predecessor_set g y \<subseteq> set res)
     \<and> topo_ordered g res"

definition kahn_final :: "DependencyGraph \<Rightarrow> string list \<Rightarrow> bool" where
  "kahn_final g r \<longleftrightarrow>
     distinct r \<and> set r \<subseteq> set (node_ids g)
     \<and> (\<forall>y \<in> set (node_ids g). y \<in> set r \<longleftrightarrow> predecessor_set g y \<subseteq> set r)
     \<and> topo_ordered g r"

lemma topo_ordered_snoc:
  "topo_ordered g res \<Longrightarrow> predecessor_set g x \<subseteq> set res \<Longrightarrow> topo_ordered g (res @ [x])"
  unfolding topo_ordered_def by (auto simp: nth_append less_Suc_eq)

lemma kahn_step:
  assumes g: "graph_inv g" and inv: "kahn_inv g ind (x # q) res"
    and n: "map_of (nodes g) x = Some n"
  shows "\<exists>ind'. process_successors ind q (successors n)
                  = Inr (ind', q @ filter (\<lambda>s. map_of ind s = Some 1) (successors n))
          \<and> kahn_inv g ind' (q @ filter (\<lambda>s. map_of ind s = Some 1) (successors n)) (res @ [x])"
proof -
  let ?K = "set (node_ids g)"
  let ?P = "predecessor_set g"
  let ?push = "filter (\<lambda>s. map_of ind s = Some 1) (successors n)"
  from inv have dom: "fst ` set ind = ?K"
    and dist: "distinct (res @ x # q)" and sub: "set (res @ x # q) \<subseteq> ?K"
    and cnt: "\<And>y. y \<in> ?K \<Longrightarrow> map_of ind y = Some (int (card (?P y - set res)))"
    and rdy: "\<And>y. y \<in> ?K \<Longrightarrow> y \<in> set (res @ x # q) \<longleftrightarrow> ?P y \<subseteq> set res"
    and topo: "topo_ordered g res"
    unfolding kahn_inv_def by auto
  have xK: "x \<in> ?K" using sub by simp
  have xres: "x \<notin> set res" using dist by simp
  have Px: "?P x \<subseteq> set res" using rdy[OF xK] by simp
  have succK: "set (successors n) \<subseteq> ?K"
    using successors_closedD[OF graph_inv_closed[OF g] n] .
  have sd: "distinct (successors n)" using graph_inv_node(2)[OF g n] .
  have mirror: "y \<in> set (successors n) \<longleftrightarrow> x \<in> ?P y" if "y \<in> ?K" for y
    using graph_inv_node(3)[OF g n, of y] predecessor_set_iff[OF g that, of x] by simp
  have "set (successors n) \<subseteq> fst ` set ind" using succK dom by simp
  from process_successors_spec[OF sd this, of q]
  obtain ind' where *: "process_successors ind q (successors n) = Inr (ind', q @ ?push)
      \<and> fst ` set ind' = fst ` set ind
      \<and> (\<forall>y. map_of ind' y = (if y \<in> set (successors n) then map_option (\<lambda>d. d - 1) (map_of ind y) else map_of ind y))"
    ..
  from * have r: "process_successors ind q (successors n) = Inr (ind', q @ ?push)"
    by (rule conjunct1)
  from * have k: "fst ` set ind' = fst ` set ind"
    by (rule conjunct2[THEN conjunct1])
  from * have m: "map_of ind' y = (if y \<in> set (successors n) then map_option (\<lambda>d. d - 1) (map_of ind y) else map_of ind y)" for y
    by (rule conjunct2[THEN conjunct2, THEN spec])
  have diff: "?P y - set (res @ [x]) = (?P y - set res) - {x}" for y by auto
  have cnt': "map_of ind' y = Some (int (card (?P y - set (res @ [x]))))" if y: "y \<in> ?K" for y
  proof (cases "y \<in> set (successors n)")
    case True
    then have "x \<in> ?P y - set res" using mirror[OF y] xres by simp
    then have "card (?P y - set res - {x}) = card (?P y - set res) - 1" "card (?P y - set res) \<ge> 1"
      by (auto simp: Suc_le_eq card_gt_0_iff)
    then show ?thesis using True m[of y] cnt[OF y] unfolding diff by (simp add: of_nat_diff)
  next
    case False
    then have "x \<notin> ?P y" using mirror[OF y] by simp
    then have "?P y - set res - {x} = ?P y - set res" by auto
    then show ?thesis using False m[of y] cnt[OF y] unfolding diff by simp
  qed
  have push_iff: "y \<in> set ?push \<longleftrightarrow> x \<in> ?P y \<and> card (?P y - set res) = 1" if y: "y \<in> ?K" for y
    using mirror[OF y] cnt[OF y] by auto
  have push_K: "set ?push \<subseteq> ?K" using succK by auto
  have rdy': "y \<in> set ((res @ [x]) @ q @ ?push) \<longleftrightarrow> ?P y \<subseteq> set (res @ [x])" if y: "y \<in> ?K" for y
  proof -
    have "?P y \<subseteq> set (res @ [x]) \<longleftrightarrow> ?P y - set res \<subseteq> {x}" by auto
    also have "\<dots> \<longleftrightarrow> ?P y - set res = {} \<or> ?P y - set res = {x}" by auto
    also have "\<dots> \<longleftrightarrow> ?P y \<subseteq> set res \<or> (x \<in> ?P y \<and> card (?P y - set res) = 1)"
    proof -
      have "?P y - set res = {x} \<longleftrightarrow> x \<in> ?P y \<and> card (?P y - set res) = 1"
      proof
        assume "?P y - set res = {x}"
        then show "x \<in> ?P y \<and> card (?P y - set res) = 1" by auto
      next
        assume a: "x \<in> ?P y \<and> card (?P y - set res) = 1"
        then obtain z where z: "?P y - set res = {z}" by (auto simp: card_1_singleton_iff)
        moreover from a xres have "x \<in> ?P y - set res" by simp
        ultimately show "?P y - set res = {x}" by auto
      qed
      then show ?thesis by auto
    qed
    also have "\<dots> \<longleftrightarrow> y \<in> set (res @ x # q) \<or> y \<in> set ?push"
      using rdy[OF y] push_iff[OF y] by simp
    finally show ?thesis by auto
  qed
  have fresh: "y \<notin> set (res @ x # q)" if "y \<in> set ?push" for y
  proof
    assume a: "y \<in> set (res @ x # q)"
    from that push_K have y: "y \<in> ?K" by auto
    from a rdy[OF y] have "?P y \<subseteq> set res" by simp
    then have "?P y - set res = {}" by auto
    then have "card (?P y - set res) = 0" by simp
    moreover from that push_iff[OF y] have "card (?P y - set res) = 1" by simp
    ultimately show False by simp
  qed
  have "distinct ?push" using sd by simp
  moreover have "set ?push \<inter> set (res @ x # q) = {}" using fresh by blast
  ultimately have dist': "distinct ((res @ [x]) @ q @ ?push)"
    using dist by auto
  have sub': "set ((res @ [x]) @ q @ ?push) \<subseteq> ?K" using sub push_K by auto
  have "fst ` set ind' = ?K" using k dom by simp
  moreover have "\<forall>y \<in> ?K. map_of ind' y = Some (int (card (?P y - set (res @ [x]))))"
    using cnt' by blast
  moreover have "\<forall>y \<in> ?K. y \<in> set ((res @ [x]) @ q @ ?push) \<longleftrightarrow> ?P y \<subseteq> set (res @ [x])"
    using rdy' by blast
  ultimately have "kahn_inv g ind' (q @ ?push) (res @ [x])"
    unfolding kahn_inv_def
    using dist' sub' topo_ordered_snoc[OF topo Px] by (intro conjI) assumption+
  with r show ?thesis by (intro exI[of _ ind'] conjI)
qed

lemma kahn_loop_correct:
  "graph_inv g \<Longrightarrow> kahn_inv g ind q res \<Longrightarrow> \<exists>r. kahn_loop g ind q res = Inr r \<and> kahn_final g r"
proof (induction g ind q res rule: kahn_loop.induct)
  case (1 g in_degree result)
  then show ?case by (auto simp: kahn_inv_def kahn_final_def)
next
  case (2 g in_degree node_id queue result)
  from "2.prems"(2) have "node_id \<in> set (node_ids g)" by (simp add: kahn_inv_def)
  then obtain n where n: "map_of (nodes g) node_id = Some n" by (auto dest: node_ids_map_of)
  from kahn_step[OF "2.prems" n] obtain ind' where
    r: "process_successors in_degree queue (successors n)
                  = Inr (ind', queue @ filter (\<lambda>s. map_of in_degree s = Some 1) (successors n))"
    and i: "kahn_inv g ind' (queue @ filter (\<lambda>s. map_of in_degree s = Some 1) (successors n)) (result @ [node_id])"
    by (elim exE conjE)
  from "2.IH"[OF n r refl "2.prems"(1) i] n r show ?case by simp
qed

definition precedes :: "string list \<Rightarrow> string \<Rightarrow> string \<Rightarrow> bool" where
  "precedes r x y \<longleftrightarrow> (\<exists>i j. i < j \<and> j < length r \<and> r ! i = x \<and> r ! j = y)"

lemma precedes_trans:
  "distinct r \<Longrightarrow> precedes r x y \<Longrightarrow> precedes r y z \<Longrightarrow> precedes r x z"
  unfolding precedes_def
  by (metis (no_types, lifting) less_trans nth_eq_iff_index_eq)

lemma precedes_irrefl: "distinct r \<Longrightarrow> \<not> precedes r x x"
  unfolding precedes_def
  by (metis less_irrefl less_trans nth_eq_iff_index_eq)

lemma map_of_in_degree:
  "map_of (map (\<lambda>(node_id, node). (node_id, int (length (predecessors node)))) ns) y
     = map_option (\<lambda>n. int (length (predecessors n))) (map_of ns y)"
  by (induction ns) auto

lemma kahn_inv_initial:
  assumes g: "graph_inv g"
  defines "ind \<equiv> map (\<lambda>(node_id, node). (node_id, int (length (predecessors node)))) (nodes g)"
  shows "kahn_inv g ind (map fst (filter (\<lambda>(node_id, degree). degree = 0) ind)) []"
proof -
  let ?K = "set (node_ids g)"
  let ?q = "map fst (filter (\<lambda>(node_id, degree). degree = 0) ind)"
  from g have dk: "distinct (map fst (nodes g))" by (simp add: graph_inv_def node_ids_def)
  have keys: "map fst ind = map fst (nodes g)" unfolding ind_def by (induction "nodes g") auto
  have k: "fst ` set ind = ?K" using keys by (metis node_ids_def set_map)
  have dq: "distinct ?q" using dk keys by (simp add: distinct_map_filter)
  have sq: "set ?q \<subseteq> ?K" using k by auto
  have cnt: "map_of ind y = Some (int (card (predecessor_set g y)))" if "y \<in> ?K" for y
  proof -
    from that obtain n where n: "map_of (nodes g) y = Some n" by (auto dest: node_ids_map_of)
    have "card (set (predecessors n)) = length (predecessors n)"
      using graph_inv_node(1)[OF g n] by (rule distinct_card)
    with n show ?thesis by (simp add: ind_def map_of_in_degree predecessor_set_def)
  qed
  have dind: "distinct (map fst ind)" using dk keys by simp
  have rdy: "y \<in> set ?q \<longleftrightarrow> predecessor_set g y \<subseteq> {}" if y: "y \<in> ?K" for y
  proof -
    have "y \<in> set ?q \<longleftrightarrow> (y, 0) \<in> set ind" by force
    also have "\<dots> \<longleftrightarrow> map_of ind y = Some 0" using dind by simp
    also have "\<dots> \<longleftrightarrow> card (predecessor_set g y) = 0" using cnt[OF y] by simp
    also have "\<dots> \<longleftrightarrow> predecessor_set g y \<subseteq> {}" by simp
    finally show ?thesis .
  qed
  show ?thesis
    unfolding kahn_inv_def using k dq sq cnt rdy by (simp add: topo_ordered_def)
qed

lemma kahn_final_complete:
  assumes g: "graph_inv g" and f: "kahn_final g r" and a: "acyclic (dependency_relation g)"
  shows "set r = set (node_ids g)"
proof (rule ccontr)
  let ?E = "dependency_relation g"
  assume ne: "set r \<noteq> set (node_ids g)"
  from f have sub: "set r \<subseteq> set (node_ids g)"
    and rdy: "\<And>y. y \<in> set (node_ids g) \<Longrightarrow> y \<in> set r \<longleftrightarrow> predecessor_set g y \<subseteq> set r"
    by (auto simp: kahn_final_def)
  from ne sub obtain u where u: "u \<in> set (node_ids g) - set r" by auto
  have "finite ?E" by (simp add: dependency_relation_def)
  then have "wf ?E" using a by (rule finite_acyclic_wf)
  from wfE_min[OF this u] obtain z where z: "z \<in> set (node_ids g) - set r"
    and zmin: "\<And>y. (y, z) \<in> ?E \<Longrightarrow> y \<notin> set (node_ids g) - set r" by blast
  from z rdy[of z] obtain p where p: "p \<in> predecessor_set g z" "p \<notin> set r" by auto
  from p(1) z have e: "(p, z) \<in> ?E" by (simp add: predecessor_set_iff[OF g])
  with g have "p \<in> set (node_ids g)" by (simp add: graph_inv_relation_ids)
  with zmin[OF e] p(2) show False by simp
qed

lemma topo_ordered_precedes:
  assumes g: "graph_inv g" and t: "topo_ordered g r" and s: "set r = set (node_ids g)"
    and e: "(p, y) \<in> dependency_relation g"
  shows "precedes r p y"
proof -
  from e g have y: "y \<in> set (node_ids g)" by (simp add: graph_inv_relation_ids)
  with s have "y \<in> set r" by simp
  then obtain j where j: "j < length r" "r ! j = y" by (auto simp: in_set_conv_nth)
  from e y have "p \<in> predecessor_set g y" by (simp add: predecessor_set_iff[OF g])
  with t j have "p \<in> set (take j r)" by (auto simp: topo_ordered_def)
  then obtain i where "i < length (take j r)" "take j r ! i = p" by (auto simp: in_set_conv_nth)
  with j have "i < j" "r ! i = p" by simp_all
  with j show ?thesis unfolding precedes_def by blast
qed

lemma topo_ordered_acyclic:
  assumes g: "graph_inv g" and t: "topo_ordered g r" and s: "set r = set (node_ids g)"
    and d: "distinct r"
  shows "acyclic (dependency_relation g)"
proof -
  have "precedes r x y" if "(x, y) \<in> (dependency_relation g)\<^sup>+" for x y
    using that
  proof (induction rule: trancl_induct)
    case (base y)
    then show ?case by (rule topo_ordered_precedes[OF g t s])
  next
    case (step y z)
    from topo_ordered_precedes[OF g t s step.hyps(2)] step.IH show ?case
      by (metis precedes_trans[OF d])
  qed
  then show ?thesis using precedes_irrefl[OF d] by (auto simp: acyclic_def)
qed

definition cycle_errors :: "string set" where
  "cycle_errors = {''Cannot perform topological sort: dependency graph has cycles'',
                   ''Topological sort failed: dependency graph has cycles''}"

lemma topological_sort_cases:
  assumes g: "graph_inv g"
  shows "(\<exists>msg \<in> cycle_errors. topological_sort g = Inl (ValueError msg) \<and> \<not> acyclic (dependency_relation g))
       \<or> (\<exists>r. topological_sort g = Inr r \<and> distinct r \<and> set r = set (node_ids g)
              \<and> topo_ordered g r \<and> acyclic (dependency_relation g))"
proof -
  let ?E = "dependency_relation g"
  let ?ind = "map (\<lambda>(node_id, node). (node_id, int (length (predecessors node)))) (nodes g)"
  let ?q = "map fst (filter (\<lambda>(node_id, degree). degree = 0) ?ind)"
  from has_cycle_sound[OF graph_inv_closed[OF g]] obtain b where
    b: "has_cycle g = Inr b" "b \<longrightarrow> \<not> acyclic ?E"
    by (auto simp: graph_inv_successor_relation[OF g])
  from kahn_loop_correct[OF g kahn_inv_initial[OF g]] obtain r where
    r: "kahn_loop g ?ind ?q [] = Inr r" "kahn_final g r" by blast
  from r(2) have dr: "distinct r" and sr: "set r \<subseteq> set (node_ids g)" and tr: "topo_ordered g r"
    by (auto simp: kahn_final_def)
  from g have dk: "distinct (node_ids g)" by (simp add: graph_inv_def)
  have ck: "card (set (node_ids g)) = length (nodes g)"
    using distinct_card[OF dk] by (simp add: node_ids_def)
  have cr: "card (set r) = length r" using dr by (rule distinct_card)
  have len: "length r = length (nodes g) \<longleftrightarrow> set r = set (node_ids g)"
  proof
    assume "length r = length (nodes g)"
    then have "card (set r) = card (set (node_ids g))" using ck cr by simp
    with sr show "set r = set (node_ids g)" by (simp add: card_subset_eq)
  next
    assume "set r = set (node_ids g)"
    then have "card (set r) = card (set (node_ids g))" by simp
    then show "length r = length (nodes g)" using ck cr by simp
  qed
  show ?thesis
  proof (cases b)
    case True
    with b show ?thesis by (auto simp: topological_sort_def cycle_errors_def)
  next
    case False
    show ?thesis
    proof (cases "length r = length (nodes g)")
      case True
      with len have s: "set r = set (node_ids g)" by simp
      from topo_ordered_acyclic[OF g tr s dr] have "acyclic ?E" .
      with b False r(1) True dr s tr show ?thesis by (simp add: topological_sort_def)
    next
      case False
      with len have "set r \<noteq> set (node_ids g)" by simp
      with kahn_final_complete[OF g r(2)] have "\<not> acyclic ?E" by auto
      with b \<open>\<not> b\<close> r(1) False show ?thesis by (simp add: topological_sort_def cycle_errors_def)
    qed
  qed
qed

text \<open>
  C3. For every graph that satisfies the invariant of graphs built with \<open>add_activity\<close> and
  \<open>add_dependency\<close>: when the dependency relation is acyclic, \<open>topological_sort\<close> returns
  a list that holds every node id exactly once, as long as the node map, in which the
  predecessor of every dependency stands before its successor; when the relation has a
  cycle, it fails with a \<^verbatim>\<open>ValueError\<close> carrying one of the two cycle messages.
\<close>

theorem topological_sort_correct:
  assumes "graph_inv g"
  shows "(acyclic (dependency_relation g) \<longrightarrow>
           (\<exists>order. topological_sort g = Inr order \<and> distinct order
              \<and> set order = set (node_ids g) \<and> length order = length (nodes g)
              \<and> (\<forall>d \<in> set (dependencies g). precedes order (predecessor_id d) (successor_id d))))
       \<and> (\<not> acyclic (dependency_relation g) \<longrightarrow>
           (\<exists>msg \<in> cycle_errors. topological_sort g = Inl (ValueError msg)))"
proof (intro conjI impI)
  assume a: "acyclic (dependency_relation g)"
  with topological_sort_cases[OF assms] obtain r where
    r: "topological_sort g = Inr r" "distinct r" "set r = set (node_ids g)" "topo_ordered g r"
    by auto
  from assms have "distinct (node_ids g)" by (simp add: graph_inv_def)
  with r(2,3) have "length r = length (nodes g)"
    by (metis distinct_card length_map node_ids_def)
  moreover have "\<forall>d \<in> set (dependencies g). precedes r (predecessor_id d) (successor_id d)"
    using topo_ordered_precedes[OF assms r(4,3)] by (auto simp: dependency_relation_def)
  ultimately show "\<exists>order. topological_sort g = Inr order \<and> distinct order
              \<and> set order = set (node_ids g) \<and> length order = length (nodes g)
              \<and> (\<forall>d \<in> set (dependencies g). precedes order (predecessor_id d) (successor_id d))"
    using r by (intro exI[of _ r]) simp
next
  assume "\<not> acyclic (dependency_relation g)"
  with topological_sort_cases[OF assms]
  show "\<exists>msg \<in> cycle_errors. topological_sort g = Inl (ValueError msg)" by auto
qed

section \<open>The passes of the critical path method\<close>

definition forward_done :: "DependencyNode \<Rightarrow> bool" where
  "forward_done n \<longleftrightarrow> earliest_start n \<noteq> None \<and> earliest_finish n \<noteq> None"

definition backward_done :: "DependencyNode \<Rightarrow> bool" where
  "backward_done n \<longleftrightarrow> latest_start n \<noteq> None \<and> latest_finish n \<noteq> None"

definition same_node_structure :: "DependencyNode \<Rightarrow> DependencyNode \<Rightarrow> bool" where
  "same_node_structure n n' \<longleftrightarrow>
     activity n' = activity n \<and> predecessors n' = predecessors n \<and> successors n' = successors n"

definition same_structure :: "DependencyGraph \<Rightarrow> DependencyGraph \<Rightarrow> bool" where
  "same_structure g g' \<longleftrightarrow>
     node_ids g' = node_ids g \<and> dependencies g' = dependencies g
     \<and> (\<forall>k. rel_option same_node_structure (map_of (nodes g) k) (map_of (nodes g') k))"

lemma same_structure_refl [simp]: "same_structure g g"
  by (simp add: same_structure_def same_node_structure_def option.rel_refl)

lemma same_structure_trans:
  "same_structure g g1 \<Longrightarrow> same_structure g1 g2 \<Longrightarrow> same_structure g g2"
  unfolding same_structure_def
proof (intro conjI allI)
  fix k
  assume a: "node_ids g1 = node_ids g \<and> dependencies g1 = dependencies g \<and>
      (\<forall>k. rel_option same_node_structure (map_of (nodes g) k) (map_of (nodes g1) k))"
    and b: "node_ids g2 = node_ids g1 \<and> dependencies g2 = dependencies g1 \<and>
      (\<forall>k. rel_option same_node_structure (map_of (nodes g1) k) (map_of (nodes g2) k))"
  from a b have "rel_option same_node_structure (map_of (nodes g) k) (map_of (nodes g1) k)"
    "rel_option same_node_structure (map_of (nodes g1) k) (map_of (nodes g2) k)" by simp_all
  then show "rel_option same_node_structure (map_of (nodes g) k) (map_of (nodes g2) k)"
    by (cases "map_of (nodes g) k"; cases "map_of (nodes g1) k"; cases "map_of (nodes g2) k")
       (auto simp: same_node_structure_def)
qed auto

lemma same_structure_lookup:
  "same_structure g g' \<Longrightarrow> map_of (nodes g) k = Some n
   \<Longrightarrow> \<exists>n'. map_of (nodes g') k = Some n' \<and> same_node_structure n n'"
  unfolding same_structure_def by (auto dest!: spec[of _ k] simp: option_rel_Some1)

lemma same_structure_lookup':
  "same_structure g g' \<Longrightarrow> map_of (nodes g') k = Some n'
   \<Longrightarrow> \<exists>n. map_of (nodes g) k = Some n \<and> same_node_structure n n'"
  unfolding same_structure_def by (auto dest!: spec[of _ k] simp: option_rel_Some2)

lemma same_structure_predecessor_set:
  "same_structure g g' \<Longrightarrow> predecessor_set g' k = predecessor_set g k"
  unfolding predecessor_set_def
  by (cases "map_of (nodes g) k")
     (auto simp: same_structure_def same_node_structure_def option_rel_Some1 dest!: spec[of _ k])

lemma same_structure_graph_inv:
  assumes s: "same_structure g g'" and g: "graph_inv g"
  shows "graph_inv g'"
proof -
  from s have ids: "node_ids g' = node_ids g" and deps: "dependencies g' = dependencies g"
    by (simp_all add: same_structure_def)
  from g have dk: "distinct (node_ids g)" by (simp add: graph_inv_def)
  have node: "distinct (predecessors n') \<and> distinct (successors n')
           \<and> set (successors n') = set (map successor_id (filter (\<lambda>d. predecessor_id d = k) (dependencies g')))
           \<and> set (predecessors n') = set (map predecessor_id (filter (\<lambda>d. successor_id d = k) (dependencies g')))"
    if "(k, n') \<in> set (nodes g')" for k n'
  proof -
    from that dk ids have "map_of (nodes g') k = Some n'" by (simp add: node_ids_def)
    from same_structure_lookup'[OF s this] obtain n where
      n: "map_of (nodes g) k = Some n" "same_node_structure n n'" by blast
    from n(1) have "(k, n) \<in> set (nodes g)" by (rule map_of_SomeD)
    with g have "distinct (predecessors n) \<and> distinct (successors n)
           \<and> set (successors n) = set (map successor_id (filter (\<lambda>d. predecessor_id d = k) (dependencies g)))
           \<and> set (predecessors n) = set (map predecessor_id (filter (\<lambda>d. successor_id d = k) (dependencies g)))"
      unfolding graph_inv_def by auto
    with n(2) deps show ?thesis by (simp add: same_node_structure_def)
  qed
  from g ids deps have "\<forall>d \<in> set (dependencies g'). predecessor_id d \<in> set (node_ids g') \<and> successor_id d \<in> set (node_ids g')"
    by (simp add: graph_inv_def)
  with dk ids node show ?thesis unfolding graph_inv_def by auto
qed

lemma same_structure_dependency_relation:
  "same_structure g g' \<Longrightarrow> dependency_relation g' = dependency_relation g"
  by (simp add: same_structure_def dependency_relation_def)

text \<open>Replacing the node under an existing key by one of the same structure.\<close>

lemma update_node_structure:
  assumes "map_of (nodes g) k = Some n" "same_node_structure n n'"
  shows "same_structure g (g\<lparr>nodes := AList.update k n' (nodes g)\<rparr>)"
proof -
  from assms(1) have "k \<in> set (map fst (nodes g))" by (force dest: map_of_SomeD)
  then have "map fst (AList.update k n' (nodes g)) = map fst (nodes g)" by (simp add: update_keys)
  moreover have "rel_option same_node_structure (map_of (nodes g) k') (map_of (AList.update k n' (nodes g)) k')" for k'
    using assms by (cases "map_of (nodes g) k'") (auto simp: update_conv' same_node_structure_def)
  ultimately show ?thesis by (simp add: same_structure_def node_ids_def)
qed

lemma forward_candidate_ok:
  "forward_done pn \<Longrightarrow> \<exists>c. forward_candidate d pn node = Inr c"
  by (auto simp: forward_done_def forward_candidate_def the_time_def)

lemma forward_predecessors_ok:
  "\<forall>p \<in> set ps. \<exists>pn. map_of (nodes g) p = Some pn \<and> forward_done pn
   \<Longrightarrow> \<exists>es. forward_predecessors g aid node acc ps = Inr es"
proof (induction ps arbitrary: acc)
  case Nil
  then show ?case by simp
next
  case (Cons p ps)
  then obtain pn where pn: "map_of (nodes g) p = Some pn" "forward_done pn" by auto
  show ?case
  proof (cases "find_dependency (dependencies g) p aid")
    case None
    with pn Cons show ?thesis by simp
  next
    case (Some d)
    from forward_candidate_ok[OF pn(2), of d node] obtain c where
      "forward_candidate d pn node = Inr c" ..
    with Some pn Cons show ?thesis by simp
  qed
qed

lemma forward_step_Inr:
  assumes "forward_step st g aid = Inr g'"
  shows "\<exists>node es. map_of (nodes g) aid = Some node
           \<and> g' = g\<lparr>nodes := AList.update aid
                      (node\<lparr>earliest_start := Some es,
                            earliest_finish := Some (es + node_total_duration node)\<rparr>) (nodes g)\<rparr>"
  using assms unfolding forward_step_def
  by (auto split: option.splits sum.splits if_splits)

lemma forward_step_ok:
  assumes "map_of (nodes g) aid = Some node"
    "\<forall>p \<in> set (predecessors node). \<exists>pn. map_of (nodes g) p = Some pn \<and> forward_done pn"
  shows "\<exists>g'. forward_step st g aid = Inr g'"
proof -
  from forward_predecessors_ok[OF assms(2), of aid node st] obtain es where
    "forward_predecessors g aid node st (predecessors node) = Inr es" ..
  with assms(1) show ?thesis by (simp add: forward_step_def)
qed

definition same_latest :: "DependencyGraph \<Rightarrow> DependencyGraph \<Rightarrow> bool" where
  "same_latest g g' \<longleftrightarrow> (\<forall>k. map_option (\<lambda>n. (latest_start n, latest_finish n, slack n, is_critical n)) (map_of (nodes g') k)
                              = map_option (\<lambda>n. (latest_start n, latest_finish n, slack n, is_critical n)) (map_of (nodes g) k))"

lemma forward_step_effect:
  assumes "forward_step st g aid = Inr g'"
  shows "same_structure g g'"
    and "\<exists>n'. map_of (nodes g') aid = Some n' \<and> forward_done n'"
    and "k \<noteq> aid \<Longrightarrow> map_of (nodes g') k = map_of (nodes g) k"
    and "critical_path g' = critical_path g \<and> total_duration g' = total_duration g"
proof -
  from forward_step_Inr[OF assms] obtain node es where
    n: "map_of (nodes g) aid = Some node"
    and g': "g' = g\<lparr>nodes := AList.update aid
                      (node\<lparr>earliest_start := Some es,
                            earliest_finish := Some (es + node_total_duration node)\<rparr>) (nodes g)\<rparr>"
    by blast
  show "same_structure g g'" unfolding g'
    by (rule update_node_structure[OF n]) (simp add: same_node_structure_def)
  show "\<exists>n'. map_of (nodes g') aid = Some n' \<and> forward_done n'"
    unfolding g' by (simp add: update_conv' forward_done_def)
  show "k \<noteq> aid \<Longrightarrow> map_of (nodes g') k = map_of (nodes g) k"
    unfolding g' by (simp add: update_conv')
  show "critical_path g' = critical_path g \<and> total_duration g' = total_duration g"
    unfolding g' by simp
qed

lemma forward_loop_done:
  "forward_loop st g r = Inr g' \<Longrightarrow>
   same_structure g g'
   \<and> (\<forall>k. (\<exists>n. map_of (nodes g) k = Some n \<and> forward_done n) \<or> k \<in> set r
          \<longrightarrow> (\<exists>n'. map_of (nodes g') k = Some n' \<and> forward_done n'))
   \<and> critical_path g' = critical_path g \<and> total_duration g' = total_duration g"
proof (induction r arbitrary: g)
  case Nil
  then show ?case by simp
next
  case (Cons a r)
  from Cons.prems obtain g1 where s: "forward_step st g a = Inr g1" and l: "forward_loop st g1 r = Inr g'"
    by (auto split: sum.splits)
  note e = forward_step_effect[OF s]
  note ih = Cons.IH[OF l]
  have "\<exists>n'. map_of (nodes g') k = Some n' \<and> forward_done n'"
    if "(\<exists>n. map_of (nodes g) k = Some n \<and> forward_done n) \<or> k \<in> set (a # r)" for k
  proof -
    from that e(2) e(3)[of k]
    have "(\<exists>n. map_of (nodes g1) k = Some n \<and> forward_done n) \<or> k \<in> set r"
      by (cases "k = a") auto
    with ih show ?thesis by blast
  qed
  with same_structure_trans[OF e(1)] ih e(4) show ?case by auto
qed

lemma forward_loop_ok:
  assumes "\<forall>i < length r. \<forall>p \<in> predecessor_set g (r ! i).
             p \<in> set (take i r) \<or> (\<exists>n. map_of (nodes g) p = Some n \<and> forward_done n)"
    and "set r \<subseteq> set (node_ids g)"
  shows "\<exists>g'. forward_loop st g r = Inr g'"
  using assms
proof (induction r arbitrary: g)
  case Nil
  then show ?case by simp
next
  case (Cons a r)
  from Cons.prems(2) obtain node where node: "map_of (nodes g) a = Some node"
    by (auto dest: node_ids_map_of)
  have pa: "predecessor_set g a = set (predecessors node)"
    using node by (simp add: predecessor_set_def)
  from Cons.prems(1)[rule_format, of 0] pa
  have "\<forall>p \<in> set (predecessors node). \<exists>pn. map_of (nodes g) p = Some pn \<and> forward_done pn"
    by auto
  from forward_step_ok[OF node this, of st] obtain g1 where s: "forward_step st g a = Inr g1" ..
  note e = forward_step_effect[OF s]
  have ids: "node_ids g1 = node_ids g" using e(1) by (simp add: same_structure_def)
  have "\<forall>i < length r. \<forall>p \<in> predecessor_set g1 (r ! i).
             p \<in> set (take i r) \<or> (\<exists>n. map_of (nodes g1) p = Some n \<and> forward_done n)"
  proof (intro allI impI ballI)
    fix i p assume i: "i < length r" and p: "p \<in> predecessor_set g1 (r ! i)"
    from p have "p \<in> predecessor_set g ((a # r) ! Suc i)"
      by (simp add: same_structure_predecessor_set[OF e(1)])
    with Cons.prems(1)[rule_format, of "Suc i" p] i
    have "p = a \<or> p \<in> set (take i r) \<or> (\<exists>n. map_of (nodes g) p = Some n \<and> forward_done n)"
      by auto
    with e(2) e(3)[of p]
    show "p \<in> set (take i r) \<or> (\<exists>n. map_of (nodes g1) p = Some n \<and> forward_done n)"
      by (cases "p = a") auto
  qed
  moreover have "set r \<subseteq> set (node_ids g1)" using Cons.prems(2) ids by simp
  ultimately obtain g' where "forward_loop st g1 r = Inr g'" using Cons.IH by blast
  with s show ?case by simp
qed

definition successor_set :: "DependencyGraph \<Rightarrow> string \<Rightarrow> string set" where
  "successor_set g x = (case map_of (nodes g) x of None \<Rightarrow> {} | Some n \<Rightarrow> set (successors n))"

lemma same_structure_successor_set:
  "same_structure g g' \<Longrightarrow> successor_set g' k = successor_set g k"
  unfolding successor_set_def
  by (cases "map_of (nodes g) k")
     (auto simp: same_structure_def same_node_structure_def option_rel_Some1 dest!: spec[of _ k])

lemma backward_candidate_ok:
  "backward_done sn \<Longrightarrow> \<exists>c. backward_candidate d sn node = Inr c"
  by (auto simp: backward_done_def backward_candidate_def the_time_def)

lemma backward_successors_ok:
  "\<forall>s \<in> set ss. \<exists>sn. map_of (nodes g) s = Some sn \<and> backward_done sn
   \<Longrightarrow> \<exists>lf. backward_successors g aid node acc ss = Inr lf"
proof (induction ss arbitrary: acc)
  case Nil
  then show ?case by simp
next
  case (Cons s ss)
  then obtain sn where sn: "map_of (nodes g) s = Some sn" "backward_done sn" by auto
  show ?case
  proof (cases "find_dependency (dependencies g) aid s")
    case None
    with sn Cons show ?thesis by simp
  next
    case (Some d)
    from backward_candidate_ok[OF sn(2), of d node] obtain c where
      "backward_candidate d sn node = Inr c" ..
    with Some sn Cons show ?thesis by simp
  qed
qed

lemma backward_step_Inr:
  assumes "backward_step pe g aid = Inr g'"
  shows "\<exists>node lf. map_of (nodes g) aid = Some node
           \<and> g' = g\<lparr>nodes := AList.update aid
                      (node\<lparr>latest_finish := Some lf,
                            latest_start := Some (lf - node_total_duration node)\<rparr>) (nodes g)\<rparr>"
  using assms unfolding backward_step_def
  by (auto split: option.splits sum.splits if_splits)

lemma backward_step_ok:
  assumes "map_of (nodes g) aid = Some node"
    "\<forall>s \<in> set (successors node). \<exists>sn. map_of (nodes g) s = Some sn \<and> backward_done sn"
  shows "\<exists>g'. backward_step pe g aid = Inr g'"
proof -
  from backward_successors_ok[OF assms(2), of aid node pe] obtain lf where
    "backward_successors g aid node pe (successors node) = Inr lf" ..
  with assms(1) show ?thesis by (simp add: backward_step_def)
qed

lemma backward_step_effect:
  assumes "backward_step pe g aid = Inr g'"
  shows "same_structure g g'"
    and "\<exists>n'. map_of (nodes g') aid = Some n' \<and> backward_done n'"
    and "k \<noteq> aid \<Longrightarrow> map_of (nodes g') k = map_of (nodes g) k"
    and "map_option (\<lambda>n. (earliest_start n, earliest_finish n)) (map_of (nodes g') k)
         = map_option (\<lambda>n. (earliest_start n, earliest_finish n)) (map_of (nodes g) k)"
    and "critical_path g' = critical_path g \<and> total_duration g' = total_duration g"
proof -
  from backward_step_Inr[OF assms] obtain node lf where
    n: "map_of (nodes g) aid = Some node"
    and g': "g' = g\<lparr>nodes := AList.update aid
                      (node\<lparr>latest_finish := Some lf,
                            latest_start := Some (lf - node_total_duration node)\<rparr>) (nodes g)\<rparr>"
    by blast
  show "same_structure g g'" unfolding g'
    by (rule update_node_structure[OF n]) (simp add: same_node_structure_def)
  show "\<exists>n'. map_of (nodes g') aid = Some n' \<and> backward_done n'"
    unfolding g' by (simp add: update_conv' backward_done_def)
  show "k \<noteq> aid \<Longrightarrow> map_of (nodes g') k = map_of (nodes g) k"
    unfolding g' by (simp add: update_conv')
  show "map_option (\<lambda>n. (earliest_start n, earliest_finish n)) (map_of (nodes g') k)
         = map_option (\<lambda>n. (earliest_start n, earliest_finish n)) (map_of (nodes g) k)"
    unfolding g' using n by (simp add: update_conv')
  show "critical_path g' = critical_path g \<and> total_duration g' = total_duration g"
    unfolding g' by simp
qed

definition same_earliest :: "DependencyGraph \<Rightarrow> DependencyGraph \<Rightarrow> bool" where
  "same_earliest g g' \<longleftrightarrow>
     (\<forall>k. map_option (\<lambda>n. (earliest_start n, earliest_finish n)) (map_of (nodes g') k)
          = map_option (\<lambda>n. (earliest_start n, earliest_finish n)) (map_of (nodes g) k))"

lemma backward_loop_done:
  "backward_loop pe g r = Inr g' \<Longrightarrow>
   same_structure g g' \<and> same_earliest g g'
   \<and> (\<forall>k. (\<exists>n. map_of (nodes g) k = Some n \<and> backward_done n) \<or> k \<in> set r
          \<longrightarrow> (\<exists>n'. map_of (nodes g') k = Some n' \<and> backward_done n'))
   \<and> critical_path g' = critical_path g \<and> total_duration g' = total_duration g"
proof (induction r arbitrary: g)
  case Nil
  then show ?case by (simp add: same_earliest_def)
next
  case (Cons a r)
  from Cons.prems obtain g1 where s: "backward_step pe g a = Inr g1" and l: "backward_loop pe g1 r = Inr g'"
    by (auto split: sum.splits)
  note e = backward_step_effect[OF s]
  note ih = Cons.IH[OF l]
  have "\<exists>n'. map_of (nodes g') k = Some n' \<and> backward_done n'"
    if "(\<exists>n. map_of (nodes g) k = Some n \<and> backward_done n) \<or> k \<in> set (a # r)" for k
  proof -
    from that e(2) e(3)[of k]
    have "(\<exists>n. map_of (nodes g1) k = Some n \<and> backward_done n) \<or> k \<in> set r"
      by (cases "k = a") auto
    with ih show ?thesis by blast
  qed
  moreover have "same_earliest g g'"
    using ih e(4) by (simp add: same_earliest_def)
  ultimately show ?case using same_structure_trans[OF e(1)] ih e(5) by auto
qed

lemma backward_loop_ok:
  assumes "\<forall>i < length r. \<forall>s \<in> successor_set g (r ! i).
             s \<in> set (take i r) \<or> (\<exists>n. map_of (nodes g) s = Some n \<and> backward_done n)"
    and "set r \<subseteq> set (node_ids g)"
  shows "\<exists>g'. backward_loop pe g r = Inr g'"
  using assms
proof (induction r arbitrary: g)
  case Nil
  then show ?case by simp
next
  case (Cons a r)
  from Cons.prems(2) obtain node where node: "map_of (nodes g) a = Some node"
    by (auto dest: node_ids_map_of)
  have pa: "successor_set g a = set (successors node)"
    using node by (simp add: successor_set_def)
  from Cons.prems(1)[rule_format, of 0] pa
  have "\<forall>s \<in> set (successors node). \<exists>sn. map_of (nodes g) s = Some sn \<and> backward_done sn"
    by auto
  from backward_step_ok[OF node this, of pe] obtain g1 where s: "backward_step pe g a = Inr g1" ..
  note e = backward_step_effect[OF s]
  have ids: "node_ids g1 = node_ids g" using e(1) by (simp add: same_structure_def)
  have "\<forall>i < length r. \<forall>p \<in> successor_set g1 (r ! i).
             p \<in> set (take i r) \<or> (\<exists>n. map_of (nodes g1) p = Some n \<and> backward_done n)"
  proof (intro allI impI ballI)
    fix i p assume i: "i < length r" and p: "p \<in> successor_set g1 (r ! i)"
    from p have "p \<in> successor_set g ((a # r) ! Suc i)"
      by (simp add: same_structure_successor_set[OF e(1)])
    with Cons.prems(1)[rule_format, of "Suc i" p] i
    have "p = a \<or> p \<in> set (take i r) \<or> (\<exists>n. map_of (nodes g) p = Some n \<and> backward_done n)"
      by auto
    with e(2) e(3)[of p]
    show "p \<in> set (take i r) \<or> (\<exists>n. map_of (nodes g1) p = Some n \<and> backward_done n)"
      by (cases "p = a") auto
  qed
  moreover have "set r \<subseteq> set (node_ids g1)" using Cons.prems(2) ids by simp
  ultimately obtain g' where "backward_loop pe g1 r = Inr g'" using Cons.IH by blast
  with s show ?case by simp
qed

lemma successor_set_iff:
  "graph_inv g \<Longrightarrow> x \<in> set (node_ids g) \<Longrightarrow> s \<in> successor_set g x \<longleftrightarrow> (x, s) \<in> dependency_relation g"
  by (auto simp: successor_set_def graph_inv_node(3) dest!: node_ids_map_of)

lemma topo_ordered_rev:
  assumes g: "graph_inv g" and t: "topo_ordered g r" and s: "set r = set (node_ids g)"
    and d: "distinct r" and i: "i < length r" and x: "x \<in> successor_set g (rev r ! i)"
  shows "x \<in> set (take i (rev r))"
proof -
  let ?n = "length r"
  from i have y: "rev r ! i = r ! (?n - Suc i)" by (simp add: rev_nth)
  from i s have "rev r ! i \<in> set (node_ids g)" by (metis length_rev nth_mem set_rev)
  with x have "(rev r ! i, x) \<in> dependency_relation g" by (simp add: successor_set_iff[OF g])
  from topo_ordered_precedes[OF g t s this] obtain a b where
    ab: "a < b" "b < ?n" "r ! a = rev r ! i" "r ! b = x"
    by (auto simp: precedes_def)
  from ab y d i have a: "a = ?n - Suc i" by (simp add: nth_eq_iff_index_eq)
  let ?j = "?n - Suc b"
  from ab a i have j: "?j < i" by simp
  from ab have "rev r ! ?j = x" by (simp add: rev_nth)
  with j i have "take i (rev r) ! ?j = x" "?j < length (take i (rev r))" by simp_all
  then show ?thesis by (metis nth_mem)
qed

lemma max_earliest_finish_ok:
  assumes "(k, n) \<in> set (nodes g)" "earliest_finish n \<noteq> None"
  shows "\<exists>t. max_earliest_finish g = Inr t"
proof -
  from assms obtain t where "earliest_finish n = Some t" by auto
  with assms(1) have "t \<in> set (List.map_filter (\<lambda>(k, node). earliest_finish node) (nodes g))"
    by (force simp: List.map_filter_def)
  then show ?thesis
    by (cases "List.map_filter (\<lambda>(k, node). earliest_finish node) (nodes g)")
       (auto simp: max_earliest_finish_def)
qed

section \<open>The invariant holds for every graph the builder makes\<close>

lemma graph_inv_alt:
  "graph_inv g \<longleftrightarrow>
     distinct (node_ids g)
     \<and> (\<forall>k n. map_of (nodes g) k = Some n \<longrightarrow>
           distinct (predecessors n) \<and> distinct (successors n)
           \<and> set (successors n) = set (map successor_id (filter (\<lambda>d. predecessor_id d = k) (dependencies g)))
           \<and> set (predecessors n) = set (map predecessor_id (filter (\<lambda>d. successor_id d = k) (dependencies g))))
     \<and> (\<forall>d \<in> set (dependencies g). predecessor_id d \<in> set (node_ids g) \<and> successor_id d \<in> set (node_ids g))"
  (is "?l \<longleftrightarrow> ?d \<and> ?m \<and> ?c")
proof
  assume l: ?l
  then have d: ?d and c: ?c by (simp_all add: graph_inv_def)
  have ?m
  proof (intro allI impI)
    fix k n assume "map_of (nodes g) k = Some n"
    then have "(k, n) \<in> set (nodes g)" by (rule map_of_SomeD)
    with l show "distinct (predecessors n) \<and> distinct (successors n)
           \<and> set (successors n) = set (map successor_id (filter (\<lambda>d. predecessor_id d = k) (dependencies g)))
           \<and> set (predecessors n) = set (map predecessor_id (filter (\<lambda>d. successor_id d = k) (dependencies g)))"
      unfolding graph_inv_def by auto
  qed
  with d c show "?d \<and> ?m \<and> ?c" by simp
next
  assume r: "?d \<and> ?m \<and> ?c"
  then have d: "distinct (map fst (nodes g))" by (simp add: node_ids_def)
  have "\<forall>(k, n) \<in> set (nodes g).
           distinct (predecessors n) \<and> distinct (successors n)
           \<and> set (successors n) = set (map successor_id (filter (\<lambda>d. predecessor_id d = k) (dependencies g)))
           \<and> set (predecessors n) = set (map predecessor_id (filter (\<lambda>d. successor_id d = k) (dependencies g)))"
  proof (intro ballI, clarify)
    fix k n assume "(k, n) \<in> set (nodes g)"
    with d have "map_of (nodes g) k = Some n" by simp
    with r show "distinct (predecessors n) \<and> distinct (successors n)
           \<and> set (successors n) = set (map successor_id (filter (\<lambda>d. predecessor_id d = k) (dependencies g)))
           \<and> set (predecessors n) = set (map predecessor_id (filter (\<lambda>d. successor_id d = k) (dependencies g)))"
      by blast
  qed
  with r show ?l unfolding graph_inv_def by simp
qed

lemma graph_inv_empty: "graph_inv empty_graph"
  by (simp add: graph_inv_def empty_graph_def node_ids_def)

lemma graph_inv_add_activity:
  assumes g: "graph_inv g"
  shows "graph_inv (add_activity g a)"
proof (cases "activity_id a \<in> fst ` set (nodes g)")
  case True
  with g show ?thesis by (simp add: add_activity_def)
next
  case False
  let ?g' = "g\<lparr>nodes := nodes g @ [(activity_id a, new_node a)]\<rparr>"
  from g have ga: "distinct (node_ids g)"
    "\<And>k n. map_of (nodes g) k = Some n \<Longrightarrow> distinct (predecessors n) \<and> distinct (successors n)
           \<and> set (successors n) = set (map successor_id (filter (\<lambda>d. predecessor_id d = k) (dependencies g)))
           \<and> set (predecessors n) = set (map predecessor_id (filter (\<lambda>d. successor_id d = k) (dependencies g)))"
    "\<And>d. d \<in> set (dependencies g) \<Longrightarrow> predecessor_id d \<in> set (node_ids g) \<and> successor_id d \<in> set (node_ids g)"
    unfolding graph_inv_alt by blast+
  have nd: "filter (\<lambda>d. predecessor_id d = activity_id a) (dependencies g) = []"
    "filter (\<lambda>d. successor_id d = activity_id a) (dependencies g) = []"
  proof -
    have "predecessor_id e \<noteq> activity_id a \<and> successor_id e \<noteq> activity_id a"
      if "e \<in> set (dependencies g)" for e
      using ga(3)[OF that] False by (force simp: node_ids_def)
    then show "filter (\<lambda>d. predecessor_id d = activity_id a) (dependencies g) = []"
      "filter (\<lambda>d. successor_id d = activity_id a) (dependencies g) = []"
      by (simp_all add: filter_empty_conv)
  qed
  have "graph_inv ?g'"
    unfolding graph_inv_alt
  proof (intro conjI allI impI ballI)
    show "distinct (node_ids ?g')" using ga(1) False by (simp add: node_ids_def)
  next
    fix k n assume kn: "map_of (nodes ?g') k = Some n"
    show "distinct (predecessors n)" "distinct (successors n)"
      "set (successors n) = set (map successor_id (filter (\<lambda>d. predecessor_id d = k) (dependencies ?g')))"
      "set (predecessors n) = set (map predecessor_id (filter (\<lambda>d. successor_id d = k) (dependencies ?g')))"
    proof -
      consider (old) "map_of (nodes g) k = Some n" | (new) "k = activity_id a" "n = new_node a"
        using kn by (auto simp: map_add_def split: option.splits if_splits)
      then have "distinct (predecessors n) \<and> distinct (successors n)
           \<and> set (successors n) = set (map successor_id (filter (\<lambda>d. predecessor_id d = k) (dependencies g)))
           \<and> set (predecessors n) = set (map predecessor_id (filter (\<lambda>d. successor_id d = k) (dependencies g)))"
      proof cases
        case old
        then show ?thesis by (rule ga(2))
      next
        case new
        then show ?thesis using nd by (simp add: new_node_def)
      qed
      then show "distinct (predecessors n)" "distinct (successors n)"
        "set (successors n) = set (map successor_id (filter (\<lambda>d. predecessor_id d = k) (dependencies ?g')))"
        "set (predecessors n) = set (map predecessor_id (filter (\<lambda>d. successor_id d = k) (dependencies ?g')))"
        by simp_all
    qed
  next
    fix d assume "d \<in> set (dependencies ?g')"
    then have "d \<in> set (dependencies g)" by simp
    from ga(3)[OF this]
    show "predecessor_id d \<in> set (node_ids ?g')" "successor_id d \<in> set (node_ids ?g')"
      by (simp_all add: node_ids_def)
  qed
  with False show ?thesis by (simp add: add_activity_def)
qed

lemma graph_inv_add_dependency:
  assumes g: "graph_inv g" and r: "add_dependency g d = Inr g'"
  shows "graph_inv g'"
proof -
  let ?p = "predecessor_id d" and ?s = "successor_id d"
  from r have ok: "\<not> dependency_rejected g d"
    and g': "g' = g\<lparr>dependencies := dependencies g @ [d],
            nodes := add_predecessor ?s ?p (add_successor ?p ?s (nodes g))\<rparr>"
    by (simp_all add: add_dependency_Inr)
  from g have ga: "distinct (node_ids g)"
    "\<And>k n. map_of (nodes g) k = Some n \<Longrightarrow> distinct (predecessors n) \<and> distinct (successors n)
           \<and> set (successors n) = set (map successor_id (filter (\<lambda>d. predecessor_id d = k) (dependencies g)))
           \<and> set (predecessors n) = set (map predecessor_id (filter (\<lambda>d. successor_id d = k) (dependencies g)))"
    "\<And>d. d \<in> set (dependencies g) \<Longrightarrow> predecessor_id d \<in> set (node_ids g) \<and> successor_id d \<in> set (node_ids g)"
    unfolding graph_inv_alt by blast+
  have ids: "node_ids g' = node_ids g" by (simp add: g' node_ids_def)
  have m: "map_of (nodes g') k =
             map_option (\<lambda>n. n\<lparr>successors := (if k = ?p then set_add ?s (successors n) else successors n),
                                predecessors := (if k = ?s then set_add ?p (predecessors n) else predecessors n)\<rparr>)
               (map_of (nodes g) k)" for k
    by (cases "map_of (nodes g) k") (simp_all add: g' map_of_add_predecessor map_of_add_successor)
  show ?thesis
    unfolding graph_inv_alt
  proof (intro conjI allI impI ballI)
    show "distinct (node_ids g')" using ga(1) ids by simp
  next
    fix k n' assume "map_of (nodes g') k = Some n'"
    with m[of k] obtain n where n: "map_of (nodes g) k = Some n"
      and n': "n' = n\<lparr>successors := (if k = ?p then set_add ?s (successors n) else successors n),
                       predecessors := (if k = ?s then set_add ?p (predecessors n) else predecessors n)\<rparr>"
      by (cases "map_of (nodes g) k") auto
    note old = ga(2)[OF n]
    show "distinct (predecessors n')" "distinct (successors n')" using old by (simp_all add: n')
    show "set (successors n') = set (map successor_id (filter (\<lambda>d. predecessor_id d = k) (dependencies g')))"
      using old by (auto simp: n' g')
    show "set (predecessors n') = set (map predecessor_id (filter (\<lambda>d. successor_id d = k) (dependencies g')))"
      using old by (auto simp: n' g')
  next
    fix e assume "e \<in> set (dependencies g')"
    then consider "e \<in> set (dependencies g)" | "e = d" by (auto simp: g')
    then show "predecessor_id e \<in> set (node_ids g')" "successor_id e \<in> set (node_ids g')"
      using ga(3) ok ids by (cases; auto simp: dependency_rejected_def node_ids_def)+
  qed
qed

lemma graph_inv_add_dependencies:
  "graph_inv g \<Longrightarrow> add_dependencies g ds = Inr g' \<Longrightarrow> graph_inv g'"
  by (induction ds arbitrary: g) (auto split: sum.splits dest: graph_inv_add_dependency)

lemma graph_inv_add_activities:
  "graph_inv g \<Longrightarrow> graph_inv (fold (\<lambda>a g. add_activity g a) activities g)"
  by (induction activities arbitrary: g) (auto intro: graph_inv_add_activity)

lemma graph_inv_create_dependency_graph:
  "create_dependency_graph activities = Inr g \<Longrightarrow> graph_inv g"
  unfolding create_dependency_graph_def
  by (rule graph_inv_add_dependencies[OF graph_inv_add_activities[OF graph_inv_empty]])

section \<open>Critical path and slack\<close>

lemma topological_sort_Inr_has_cycle:
  "topological_sort g = Inr r \<Longrightarrow> has_cycle g = Inr False"
  by (auto simp: topological_sort_def Let_def split: sum.splits bool.splits if_splits)

lemma topological_sort_Inr:
  assumes "graph_inv g" "topological_sort g = Inr r"
  shows "distinct r" "set r = set (node_ids g)" "topo_ordered g r"
  using topological_sort_cases[OF assms(1)] assms(2) by auto

lemma slack_node_simps [simp]:
  "earliest_start (slack_node n) = earliest_start n"
  "earliest_finish (slack_node n) = earliest_finish n"
  "latest_start (slack_node n) = latest_start n"
  "latest_finish (slack_node n) = latest_finish n"
  "activity (slack_node n) = activity n"
  "predecessors (slack_node n) = predecessors n"
  "successors (slack_node n) = successors n"
  by (simp_all add: slack_node_def split: option.splits)

lemma slack_node_critical:
  "forward_done n \<Longrightarrow> backward_done n \<Longrightarrow> is_critical (slack_node n) \<longleftrightarrow> slack (slack_node n) = 0"
  by (auto simp: forward_done_def backward_done_def slack_node_def)

definition all_nodes :: "(DependencyNode \<Rightarrow> bool) \<Rightarrow> DependencyGraph \<Rightarrow> bool" where
  "all_nodes P g \<longleftrightarrow> (\<forall>k \<in> set (node_ids g). \<exists>n. map_of (nodes g) k = Some n \<and> P n)"

lemma all_nodesD:
  "all_nodes P g \<Longrightarrow> (k, n) \<in> set (nodes g) \<Longrightarrow> distinct (node_ids g) \<Longrightarrow> P n"
proof -
  assume a: "all_nodes P g" and kn: "(k, n) \<in> set (nodes g)" and d: "distinct (node_ids g)"
  from d kn have m: "map_of (nodes g) k = Some n" unfolding node_ids_def by (rule map_of_is_SomeI)
  from kn have "k \<in> set (node_ids g)" by (force simp: node_ids_def)
  with a obtain n' where "map_of (nodes g) k = Some n'" "P n'" by (auto simp: all_nodes_def)
  with m show "P n" by simp
qed

lemma map_fst_map_snd:
  "map fst (map (\<lambda>(k, node). (k, f node)) xs) = map fst xs"
  by (induction xs) auto

lemma forward_pass_done:
  assumes g: "graph_inv g" and f: "forward_pass g st = Inr g1"
  shows "same_structure g g1" "all_nodes forward_done g1"
proof -
  from f obtain r where r: "topological_sort g = Inr r" and l: "forward_loop st g r = Inr g1"
    by (auto simp: forward_pass_def split: sum.splits)
  note d = forward_loop_done[OF l]
  from d show s: "same_structure g g1" by simp
  then have "node_ids g1 = node_ids g" by (simp add: same_structure_def)
  with d topological_sort_Inr(2)[OF g r] show "all_nodes forward_done g1"
    by (simp add: all_nodes_def)
qed

lemma backward_pass_done:
  assumes g: "graph_inv g" and f: "backward_pass g = Inr g2"
  shows "same_structure g g2" "same_earliest g g2" "all_nodes backward_done g2"
proof -
  from f obtain r pe where r: "topological_sort g = Inr r"
    and l: "backward_loop pe g (rev r) = Inr g2"
    by (auto simp: backward_pass_def split: sum.splits)
  note d = backward_loop_done[OF l]
  from d show s: "same_structure g g2" and "same_earliest g g2" by simp_all
  then have "node_ids g2 = node_ids g" by (simp add: same_structure_def)
  with d topological_sort_Inr(2)[OF g r] show "all_nodes backward_done g2"
    by (simp add: all_nodes_def)
qed

lemma same_earliest_forward_done:
  assumes "same_earliest g g'" "node_ids g' = node_ids g" "all_nodes forward_done g"
  shows "all_nodes forward_done g'"
  unfolding all_nodes_def
proof
  fix k assume "k \<in> set (node_ids g')"
  with assms(2,3) obtain n where n: "map_of (nodes g) k = Some n" "forward_done n"
    by (auto simp: all_nodes_def)
  from assms(1) have "map_option (\<lambda>n. (earliest_start n, earliest_finish n)) (map_of (nodes g') k)
          = map_option (\<lambda>n. (earliest_start n, earliest_finish n)) (map_of (nodes g) k)"
    by (simp add: same_earliest_def)
  with n show "\<exists>n'. map_of (nodes g') k = Some n' \<and> forward_done n'"
    by (cases "map_of (nodes g') k") (auto simp: forward_done_def)
qed

lemma forward_pass_ok:
  assumes g: "graph_inv g" and a: "acyclic (dependency_relation g)"
  shows "\<exists>g1. forward_pass g st = Inr g1"
proof -
  from topological_sort_cases[OF g] a obtain r where r: "topological_sort g = Inr r"
    and p: "set r = set (node_ids g)" "topo_ordered g r" by auto
  have "\<forall>i < length r. \<forall>p \<in> predecessor_set g (r ! i).
             p \<in> set (take i r) \<or> (\<exists>n. map_of (nodes g) p = Some n \<and> forward_done n)"
    using p(2) by (auto simp: topo_ordered_def)
  from forward_loop_ok[OF this, of st] p(1) obtain g1 where "forward_loop st g r = Inr g1" by auto
  with r show ?thesis by (simp add: forward_pass_def)
qed

lemma backward_pass_ok:
  assumes g: "graph_inv g" and a: "acyclic (dependency_relation g)"
    and f: "all_nodes forward_done g" and ne: "nodes g \<noteq> []"
  shows "\<exists>g2. backward_pass g = Inr g2"
proof -
  from topological_sort_cases[OF g] a obtain r where r: "topological_sort g = Inr r"
    and p: "distinct r" "set r = set (node_ids g)" "topo_ordered g r" by auto
  from g have dk: "distinct (node_ids g)" by (simp add: graph_inv_def)
  from ne obtain k n where kn: "(k, n) \<in> set (nodes g)" by (cases "nodes g") auto
  with all_nodesD[OF f kn dk] have "earliest_finish n \<noteq> None" by (simp add: forward_done_def)
  from max_earliest_finish_ok[OF kn this] obtain pe where pe: "max_earliest_finish g = Inr pe" ..
  have "\<forall>i < length (rev r). \<forall>s \<in> successor_set g (rev r ! i).
             s \<in> set (take i (rev r)) \<or> (\<exists>n. map_of (nodes g) s = Some n \<and> backward_done n)"
    using topo_ordered_rev[OF g p(3,2,1)] by auto
  from backward_loop_ok[OF this, of pe] p(2) obtain g2 where "backward_loop pe g (rev r) = Inr g2"
    by auto
  with r pe show ?thesis by (simp add: backward_pass_def)
qed

definition earliest_start_of :: "DependencyGraph \<Rightarrow> string \<Rightarrow> int option" where
  "earliest_start_of g k = (case map_of (nodes g) k of None \<Rightarrow> None | Some n \<Rightarrow> earliest_start n)"

definition slack_of :: "DependencyGraph \<Rightarrow> string \<Rightarrow> int option" where
  "slack_of g k = map_option slack (map_of (nodes g) k)"

lemma calculate_critical_path_Inr:
  assumes "calculate_critical_path g st = Inr g'"
  shows "\<exists>g1 g2. forward_pass g st = Inr g1 \<and> backward_pass g1 = Inr g2
           \<and> nodes g' = nodes (calculate_slack g2)
           \<and> critical_path g' = find_critical_path (calculate_slack g2)"
  using assms unfolding calculate_critical_path_def Let_def
  by (auto split: sum.splits bool.splits if_splits)

lemma find_critical_path_props:
  assumes dk: "distinct (map fst ns)" and "nodes g = ns"
    and es: "\<forall>(k, n) \<in> set ns. earliest_start n \<noteq> None"
  shows "set (find_critical_path g) = {k. \<exists>n. (k, n) \<in> set ns \<and> is_critical n}"
    and "distinct (find_critical_path g)"
    and "\<exists>ts. map (earliest_start_of g) (find_critical_path g) = map Some ts \<and> sorted ts"
proof -
  let ?f = "\<lambda>aid. start_key (map_of (nodes g) aid)"
  let ?c = "map fst (filter (\<lambda>(aid, node). is_critical node) ns)"
  have cp: "find_critical_path g = sort_key ?f ?c" by (simp add: find_critical_path_def assms(2))
  show s: "set (find_critical_path g) = {k. \<exists>n. (k, n) \<in> set ns \<and> is_critical n}"
    unfolding cp by force
  show "distinct (find_critical_path g)"
    unfolding cp using dk by (simp add: distinct_map_filter)
  have key: "earliest_start_of g k = Some (?f k)" if "k \<in> set (find_critical_path g)" for k
  proof -
    from that s obtain n where n: "(k, n) \<in> set ns" by auto
    with dk assms(2) have "map_of (nodes g) k = Some n" by simp
    moreover from n es obtain t where "earliest_start n = Some t" by auto
    ultimately show ?thesis by (simp add: earliest_start_of_def start_key_def)
  qed
  have "map (earliest_start_of g) (find_critical_path g) = map Some (map ?f (find_critical_path g))"
    using key by simp
  moreover have "sorted (map ?f (find_critical_path g))" unfolding cp by (rule sorted_sort_key)
  ultimately show "\<exists>ts. map (earliest_start_of g) (find_critical_path g) = map Some ts \<and> sorted ts"
    by blast
qed

text \<open>
  C2. For every graph that satisfies the builder's invariant and every project start:
  when the dependency relation is acyclic and the graph has a node,
  \<open>calculate_critical_path\<close> returns; and whenever it returns, on the graph it returns a
  node id is in \<open>critical_path\<close> exactly when the slack of its node is zero, the path holds
  node ids only, each once, and the earliest starts along the path are all set and ascending.
  (On the empty graph the backward pass raises: \<^verbatim>\<open>max()\<close> of an empty sequence.)
\<close>

theorem critical_path_iff_zero_slack:
  assumes g: "graph_inv g"
  shows "(acyclic (dependency_relation g) \<and> nodes g \<noteq> [] \<longrightarrow> (\<exists>g'. calculate_critical_path g st = Inr g'))
       \<and> (\<forall>g'. calculate_critical_path g st = Inr g' \<longrightarrow>
            node_ids g' = node_ids g
            \<and> (\<forall>k \<in> set (node_ids g'). k \<in> set (critical_path g') \<longleftrightarrow> slack_of g' k = Some 0)
            \<and> set (critical_path g') \<subseteq> set (node_ids g') \<and> distinct (critical_path g')
            \<and> (\<exists>ts. map (earliest_start_of g') (critical_path g') = map Some ts \<and> sorted ts))"
proof (intro conjI allI impI)
  assume "acyclic (dependency_relation g) \<and> nodes g \<noteq> []"
  then have a: "acyclic (dependency_relation g)" and ne: "nodes g \<noteq> []" by simp_all
  from topological_sort_cases[OF g] a obtain r where "topological_sort g = Inr r" by auto
  then have hc: "has_cycle g = Inr False" by (rule topological_sort_Inr_has_cycle)
  from forward_pass_ok[OF g a] obtain g1 where f: "forward_pass g st = Inr g1" ..
  note f1 = forward_pass_done[OF g f]
  have g1: "graph_inv g1" using same_structure_graph_inv[OF f1(1) g] .
  have a1: "acyclic (dependency_relation g1)"
    using a by (simp add: same_structure_dependency_relation[OF f1(1)])
  have ids1: "node_ids g1 = node_ids g" using f1(1) by (simp add: same_structure_def)
  then have ne1: "nodes g1 \<noteq> []" using ne by (auto simp: node_ids_def)
  from backward_pass_ok[OF g1 a1 f1(2) ne1] obtain g2 where b: "backward_pass g1 = Inr g2" ..
  note b2 = backward_pass_done[OF g1 b]
  have ids2: "node_ids g2 = node_ids g1" using b2(1) by (simp add: same_structure_def)
  have fd2: "all_nodes forward_done g2" using same_earliest_forward_done[OF b2(2) ids2 f1(2)] .
  let ?g4 = "(calculate_slack g2)\<lparr>critical_path := find_critical_path (calculate_slack g2)\<rparr>"
  from ne1 ids2 obtain k n where kn: "(k, n) \<in> set (nodes g2)"
    by (cases "nodes g2") (auto simp: node_ids_def)
  from g1 ids2 have "distinct (node_ids g2)" by (simp add: graph_inv_def)
  from all_nodesD[OF fd2 kn this] have "earliest_finish n \<noteq> None" by (simp add: forward_done_def)
  moreover from kn have "(k, slack_node n) \<in> set (nodes ?g4)" by (force simp: calculate_slack_def)
  ultimately obtain t where t: "max_earliest_finish ?g4 = Inr t"
    using max_earliest_finish_ok[of k "slack_node n" ?g4] by auto
  from kn have "nodes ?g4 \<noteq> []" by (auto simp: calculate_slack_def)
  with hc f b t show "\<exists>g'. calculate_critical_path g st = Inr g'"
    by (simp add: calculate_critical_path_def Let_def)
next
  fix g' assume c: "calculate_critical_path g st = Inr g'"
  from calculate_critical_path_Inr[OF c] obtain g1 g2 where
    f: "forward_pass g st = Inr g1" and b: "backward_pass g1 = Inr g2"
    and n': "nodes g' = nodes (calculate_slack g2)"
    and c': "critical_path g' = find_critical_path (calculate_slack g2)"
    by blast
  note f1 = forward_pass_done[OF g f]
  have g1: "graph_inv g1" using same_structure_graph_inv[OF f1(1) g] .
  have ids1: "node_ids g1 = node_ids g" using f1(1) by (simp add: same_structure_def)
  note b2 = backward_pass_done[OF g1 b]
  have ids2: "node_ids g2 = node_ids g1" using b2(1) by (simp add: same_structure_def)
  have fd2: "all_nodes forward_done g2" using same_earliest_forward_done[OF b2(2) ids2 f1(2)] .
  from g ids1 ids2 have d2: "distinct (node_ids g2)" by (simp add: graph_inv_def)
  let ?ns = "map (\<lambda>(k, node). (k, slack_node node)) (nodes g2)"
  have ns: "nodes g' = ?ns" by (simp add: n' calculate_slack_def)
  have keys: "map fst ?ns = map fst (nodes g2)" by (rule map_fst_map_snd)
  show ids': "node_ids g' = node_ids g"
  proof -
    have "node_ids g' = map fst ?ns" by (simp only: node_ids_def ns)
    also have "\<dots> = node_ids g2" by (simp only: keys node_ids_def)
    finally show ?thesis using ids1 ids2 by simp
  qed
  have dk: "distinct (map fst ?ns)" unfolding keys using d2 by (simp only: node_ids_def)
  have each: "forward_done n \<and> backward_done n" if "(k, n) \<in> set (nodes g2)" for k n
    using all_nodesD[OF fd2 that d2] all_nodesD[OF b2(3) that d2] by simp
  have es: "\<forall>(k, n) \<in> set ?ns. earliest_start n \<noteq> None"
    using each by (auto simp: forward_done_def)
  have crit: "is_critical n \<longleftrightarrow> slack n = 0" if "(k, n) \<in> set ?ns" for k n
    using that each by (auto simp: slack_node_critical)
  have nsg: "nodes (calculate_slack g2) = ?ns" by (simp add: calculate_slack_def)
  note p = find_critical_path_props[OF dk nsg es]
  show "set (critical_path g') \<subseteq> set (node_ids g')"
    unfolding c' p(1) by (force simp: node_ids_def ns)
  show "distinct (critical_path g')" unfolding c' by (rule p(2))
  have "earliest_start_of g' = earliest_start_of (calculate_slack g2)"
    by (auto simp: earliest_start_of_def n')
  with p(3) show "\<exists>ts. map (earliest_start_of g') (critical_path g') = map Some ts \<and> sorted ts"
    by (simp add: c')
  show "\<forall>k \<in> set (node_ids g'). k \<in> set (critical_path g') \<longleftrightarrow> slack_of g' k = Some 0"
  proof
    fix k assume "k \<in> set (node_ids g')"
    then have "k \<in> fst ` set ?ns" by (simp only: node_ids_def ns set_map)
    then obtain n where n: "(k, n) \<in> set ?ns" by force
    with dk have m: "map_of (nodes g') k = Some n" unfolding ns by (rule map_of_is_SomeI)
    have "k \<in> set (critical_path g') \<longleftrightarrow> (\<exists>n'. (k, n') \<in> set ?ns \<and> is_critical n')"
      unfolding c' p(1) by simp
    also have "\<dots> \<longleftrightarrow> is_critical n"
      using n dk by (metis (no_types, lifting) map_of_is_SomeI option.inject)
    also have "\<dots> \<longleftrightarrow> slack n = 0" by (rule crit[OF n])
    finally show "k \<in> set (critical_path g') \<longleftrightarrow> slack_of g' k = Some 0"
      by (simp add: slack_of_def m)
  qed
qed

section \<open>Example graphs\<close>

text \<open>Three one-hour activities \<open>a\<close>, \<open>b\<close>, \<open>c\<close> with the edge \<open>a \<rightarrow> b\<close>, and the same
  graph with the edge \<open>b \<rightarrow> a\<close> added, which \<open>add_dependency\<close> accepts.\<close>

definition three_activities :: DependencyGraph where
  "three_activities = fold (\<lambda>a g. add_activity g a)
     [plain_activity ''a'', plain_activity ''b'', plain_activity ''c''] empty_graph"

definition fork_graph :: DependencyGraph where
  "fork_graph = (case add_dependency three_activities (edge ''a'' ''b'' 0) of
                   Inl e \<Rightarrow> three_activities | Inr g \<Rightarrow> g)"

definition cycle_graph :: DependencyGraph where
  "cycle_graph = (case add_dependency fork_graph (edge ''b'' ''a'' 0) of
                    Inl e \<Rightarrow> fork_graph | Inr g \<Rightarrow> g)"

lemma graph_inv_three_activities: "graph_inv three_activities"
  unfolding three_activities_def by (rule graph_inv_add_activities[OF graph_inv_empty])

lemma graph_inv_fork_graph: "graph_inv fork_graph"
  unfolding fork_graph_def
  by (cases "add_dependency three_activities (edge ''a'' ''b'' 0)")
     (simp_all add: graph_inv_three_activities graph_inv_add_dependency[OF graph_inv_three_activities])

lemma graph_inv_cycle_graph: "graph_inv cycle_graph"
  unfolding cycle_graph_def
  by (cases "add_dependency fork_graph (edge ''b'' ''a'' 0)")
     (simp_all add: graph_inv_fork_graph graph_inv_add_dependency[OF graph_inv_fork_graph])

lemma dependencies_fork_graph: "dependencies fork_graph = [edge ''a'' ''b'' 0]"
  by code_simp

lemma dependencies_cycle_graph: "dependencies cycle_graph = [edge ''a'' ''b'' 0, edge ''b'' ''a'' 0]"
  by code_simp

lemma acyclic_fork_graph: "acyclic (dependency_relation fork_graph)"
proof -
  have "acyclic ({} :: (string \<times> string) set)" by (simp add: acyclic_def)
  then show ?thesis
    by (simp add: dependency_relation_def dependencies_fork_graph edge_def acyclic_insert)
qed

lemma cyclic_cycle_graph: "\<not> acyclic (dependency_relation cycle_graph)"
proof -
  have "(''a'', ''b'') \<in> dependency_relation cycle_graph" "(''b'', ''a'') \<in> dependency_relation cycle_graph"
    by (simp_all add: dependency_relation_def dependencies_cycle_graph edge_def)
  then have "(''a'', ''a'') \<in> (dependency_relation cycle_graph)\<^sup>+" by (rule trancl_into_trancl[OF r_into_trancl])
  then show ?thesis by (auto simp: acyclic_def)
qed

text \<open>Witness for C3: the order of the three-activity graph, and the failure on the cycle.\<close>

theorem topological_sort_correct_witness:
  "graph_inv fork_graph \<and> acyclic (dependency_relation fork_graph)
   \<and> topological_sort fork_graph = Inr [''a'', ''c'', ''b'']
   \<and> precedes [''a'', ''c'', ''b''] ''a'' ''b''
   \<and> graph_inv cycle_graph \<and> \<not> acyclic (dependency_relation cycle_graph)
   \<and> topological_sort cycle_graph
       = Inl (ValueError ''Cannot perform topological sort: dependency graph has cycles'')"
proof -
  have t: "topological_sort fork_graph = Inr [''a'', ''c'', ''b'']" by code_simp
  from topological_sort_correct[OF graph_inv_fork_graph] acyclic_fork_graph t
  have "\<forall>d \<in> set (dependencies fork_graph). precedes [''a'', ''c'', ''b''] (predecessor_id d) (successor_id d)"
    by auto
  then have p: "precedes [''a'', ''c'', ''b''] ''a'' ''b''"
    by (simp add: dependencies_fork_graph edge_def)
  from topological_sort_correct[OF graph_inv_cycle_graph] cyclic_cycle_graph
  obtain msg where "topological_sort cycle_graph = Inl (ValueError msg)" by auto
  moreover have "topological_sort cycle_graph
       = Inl (ValueError ''Cannot perform topological sort: dependency graph has cycles'')"
    by code_simp
  ultimately show ?thesis
    using graph_inv_fork_graph acyclic_fork_graph t p graph_inv_cycle_graph cyclic_cycle_graph
    by simp
qed

lemma fork_graph_critical_path:
  "map_sum id (\<lambda>g'. (critical_path g', map (slack_of g') [''a'', ''b'', ''c'']))
     (calculate_critical_path fork_graph (hours 9))
   = Inr ([''a'', ''b''], [Some 0, Some 0, Some (hours 1)])"
  by code_simp

text \<open>Witness for C2: \<open>a\<close> and \<open>b\<close> are critical, \<open>c\<close> has one hour of slack and is not.\<close>

theorem critical_path_iff_zero_slack_witness:
  "graph_inv fork_graph \<and> acyclic (dependency_relation fork_graph) \<and> nodes fork_graph \<noteq> []
   \<and> (\<exists>g'. calculate_critical_path fork_graph (hours 9) = Inr g'
         \<and> critical_path g' = [''a'', ''b'']
         \<and> slack_of g' ''a'' = Some 0 \<and> slack_of g' ''b'' = Some 0
         \<and> slack_of g' ''c'' = Some (hours 1))"
proof -
  have ne: "nodes fork_graph \<noteq> []" by code_simp
  from critical_path_iff_zero_slack[OF graph_inv_fork_graph, of "hours 9"] acyclic_fork_graph ne
  obtain g' where g': "calculate_critical_path fork_graph (hours 9) = Inr g'"
    and iff: "\<forall>k \<in> set (node_ids g'). k \<in> set (critical_path g') \<longleftrightarrow> slack_of g' k = Some 0"
    by blast
  from fork_graph_critical_path g' have
    "critical_path g' = [''a'', ''b'']" "slack_of g' ''a'' = Some 0" "slack_of g' ''b'' = Some 0"
    "slack_of g' ''c'' = Some (hours 1)" by simp_all
  with g' graph_inv_fork_graph acyclic_fork_graph ne show ?thesis by blast
qed

section \<open>The three-activity scenario\<close>

text \<open>An activity of the scenario: its id is also its name, and it has no setup or cleanup
  time.\<close>

definition scenario_activity :: "string \<Rightarrow> ActivityType \<Rightarrow> int \<Rightarrow> Priority \<Rightarrow> string list \<Rightarrow> rat \<Rightarrow> Activity" where
  "scenario_activity i t h p vs c =
     \<lparr>activity_id = i, name = i, activity_type = t, duration = hours h, priority = p,
      required_vendors = vs, estimated_cost = c, setup_time = 0, cleanup_time = 0\<rparr>"

definition scenario_graph :: "Activity \<Rightarrow> Activity \<Rightarrow> Activity \<Rightarrow> DependencyGraph" where
  "scenario_graph a b c =
     \<lparr>nodes = [(''A'', (new_node a)\<lparr>successors := [''B'']\<rparr>),
               (''B'', (new_node b)\<lparr>predecessors := [''A''], successors := [''C'']\<rparr>),
               (''C'', (new_node c)\<lparr>predecessors := [''B'']\<rparr>)],
      dependencies =
        [\<lparr>predecessor_id = ''A'', successor_id = ''B'', dependency_type = ''finish_to_start'',
          lag_time = minutes 15\<rparr>,
         \<lparr>predecessor_id = ''B'', successor_id = ''C'', dependency_type = ''finish_to_start'',
          lag_time = minutes 30\<rparr>],
      critical_path = [], total_duration = 0\<rparr>"

definition schedule_summary :: "DependencyGraph
    \<Rightarrow> (string \<times> int option \<times> int option \<times> int) list \<times> string list" where
  "schedule_summary g =
     (map (\<lambda>(k, node). (k, earliest_start node, earliest_finish node, slack node)) (nodes g),
      critical_path g)"

lemma scenario_create:
  "create_dependency_graph
     [scenario_activity ''A'' PREPARATION 1 p1 v1 c1, scenario_activity ''B'' CEREMONY 2 p2 v2 c2,
      scenario_activity ''C'' CLEANUP 1 p3 v3 c3]
   = Inr (scenario_graph (scenario_activity ''A'' PREPARATION 1 p1 v1 c1)
            (scenario_activity ''B'' CEREMONY 2 p2 v2 c2) (scenario_activity ''C'' CLEANUP 1 p3 v3 c3))"
  by (simp add: create_dependency_graph_def generate_automatic_dependencies_def
      scenario_activity_def scenario_graph_def add_activity_def empty_graph_def
      get_cultural_sequence_dependencies_def hindu_sequence_def muslim_sequence_def lower_def
      lower_char_def add_dependency_def Dependency_validate_def dependency_types_def
      add_successor_def add_predecessor_def set_add_def new_node_def)

lemma scenario_cpm:
  "map_sum id schedule_summary
     (calculate_critical_path
        (scenario_graph (scenario_activity ''A'' PREPARATION 1 p1 v1 c1)
           (scenario_activity ''B'' CEREMONY 2 p2 v2 c2) (scenario_activity ''C'' CLEANUP 1 p3 v3 c3)) st)
   = Inr ([(''A'', Some st, Some (st + hours 1), 0),
           (''B'', Some (st + hours 1 + minutes 15), Some (st + hours 3 + minutes 15), 0),
           (''C'', Some (st + hours 3 + minutes 45), Some (st + hours 4 + minutes 45), 0)],
          [''A'', ''B'', ''C''])"
  by (simp add: calculate_critical_path_def has_cycle_def dfs.simps topological_sort_def
      forward_pass_def backward_pass_def forward_step_def backward_step_def find_dependency_def
      forward_candidate_def backward_candidate_def the_time_def max_earliest_finish_def
      List.map_filter_def calculate_slack_def slack_node_def find_critical_path_def start_key_def
      datetime_min_def node_total_duration_def new_node_def scenario_activity_def scenario_graph_def
      schedule_summary_def hours_def minutes_def microseconds_per_minute_def Let_def)

text \<open>
  C1. Activities A (preparation, 1h), B (ceremony, 2h), C (cleanup, 1h), with no setup or
  cleanup time and any priority, vendors and cost: \<open>create_dependency_graph\<close> infers exactly
  the edges A \<rightarrow> B (finish to start, 15 minutes) and B \<rightarrow> C (finish to start, 30 minutes),
  and \<open>calculate_critical_path\<close> with project start 09:00 of any day \<open>d\<close> gives A the
  window 09:00-10:00, B 10:15-12:15, C 12:45-13:45, slack zero to all three and the critical
  path [A, B, C].
\<close>

theorem scenario_critical_path:
  "(case create_dependency_graph
           [scenario_activity ''A'' PREPARATION 1 p1 v1 c1,
            scenario_activity ''B'' CEREMONY 2 p2 v2 c2,
            scenario_activity ''C'' CLEANUP 1 p3 v3 c3] of
      Inl e \<Rightarrow> Inl e
    | Inr g \<Rightarrow>
        map_sum id (\<lambda>g'. (dependencies g', schedule_summary g'))
          (calculate_critical_path g (days d + hours 9)))
   = Inr ([\<lparr>predecessor_id = ''A'', successor_id = ''B'',
             dependency_type = ''finish_to_start'', lag_time = minutes 15\<rparr>,
           \<lparr>predecessor_id = ''B'', successor_id = ''C'',
             dependency_type = ''finish_to_start'', lag_time = minutes 30\<rparr>],
          [(''A'', Some (days d + hours 9), Some (days d + hours 10), 0),
           (''B'', Some (days d + hours 10 + minutes 15), Some (days d + hours 12 + minutes 15), 0),
           (''C'', Some (days d + hours 12 + minutes 45), Some (days d + hours 13 + minutes 45), 0)],
          [''A'', ''B'', ''C''])"
proof -
  let ?g = "scenario_graph (scenario_activity ''A'' PREPARATION 1 p1 v1 c1)
           (scenario_activity ''B'' CEREMONY 2 p2 v2 c2) (scenario_activity ''C'' CLEANUP 1 p3 v3 c3)"
  let ?st = "days d + hours 9"
  from scenario_cpm[of p1 v1 c1 p2 v2 c2 p3 v3 c3 ?st]
  obtain g' where g': "calculate_critical_path ?g ?st = Inr g'"
    and s: "schedule_summary g' = ([(''A'', Some ?st, Some (?st + hours 1), 0),
           (''B'', Some (?st + hours 1 + minutes 15), Some (?st + hours 3 + minutes 15), 0),
           (''C'', Some (?st + hours 3 + minutes 45), Some (?st + hours 4 + minutes 45), 0)],
          [''A'', ''B'', ''C''])"
    by (cases "calculate_critical_path ?g ?st") auto
  from calculate_critical_path_Inr[OF g'] obtain g1 g2 where
    f: "forward_pass ?g ?st = Inr g1" and b: "backward_pass g1 = Inr g2" by blast
  have inv: "graph_inv ?g" using scenario_create by (rule graph_inv_create_dependency_graph)
  have "dependencies g' = dependencies ?g"
    using g' forward_pass_done(1)[OF inv f]
      backward_pass_done(1)[OF same_structure_graph_inv[OF forward_pass_done(1)[OF inv f] inv] b]
    unfolding calculate_critical_path_def Let_def
    by (auto simp: f b same_structure_def calculate_slack_def split: sum.splits bool.splits if_splits)
  then have d': "dependencies g' = [\<lparr>predecessor_id = ''A'', successor_id = ''B'',
             dependency_type = ''finish_to_start'', lag_time = minutes 15\<rparr>,
           \<lparr>predecessor_id = ''B'', successor_id = ''C'',
             dependency_type = ''finish_to_start'', lag_time = minutes 30\<rparr>]"
    by (simp add: scenario_graph_def)
  show ?thesis
    unfolding scenario_create using g' s d'
    by (simp add: hours_def minutes_def microseconds_per_minute_def)
qed

section \<open>The backward pass on a graph that was not forward-passed\<close>







section \<open>Packing timed activities into days\<close>

text \<open>
  \<^verbatim>\<open>TimedActivity\<close>, \<^verbatim>\<open>TimelineDay\<close> and the fields of \<^verbatim>\<open>TimelineGenerationContext\<close>
  that the packer reads (\<open>gen_start_date\<close> and \<open>gen_start_time\<close> are its \<^verbatim>\<open>start_date\<close>
  and \<^verbatim>\<open>start_time\<close>). \<open>PackerState\<close> holds the local variables of
  \<^verbatim>\<open>_schedule_activities_to_days\<close>. The day notes are left out.
\<close>

record TimedActivity =
  timed_activity :: Activity
  start_time :: int
  end_time :: int
  buffer_before :: int
  buffer_after :: int

record TimelineDay =
  day_number :: int
  date :: int
  activities :: "TimedActivity list"
  day_estimated_cost :: rat

record TimelineGenerationContext =
  gen_start_date :: int
  gen_start_time :: int
  daily_schedule_hours :: int

record PackerState =
  timeline_days :: "TimelineDay list"
  current_date :: int
  current_time :: int
  current_day_number :: int
  daily_activities :: "TimedActivity list"
  daily_cost :: rat

text \<open>\<^verbatim>\<open>datetime.time()\<close>, \<^verbatim>\<open>datetime.combine\<close> and \<^verbatim>\<open>get_daily_end_time\<close>.\<close>

definition time_of_day :: "int \<Rightarrow> int" where
  "time_of_day t = t mod days 1"

definition combine :: "int \<Rightarrow> int \<Rightarrow> int" where
  "combine d t = days d + t"

definition get_daily_end_time :: "TimelineGenerationContext \<Rightarrow> int \<Rightarrow> int" where
  "get_daily_end_time ctx day_start = day_start + hours (daily_schedule_hours ctx)"

text \<open>The local \<^verbatim>\<open>activity_duration\<close>: setup, duration, cleanup and both buffers.\<close>

definition activity_footprint :: "TimedActivity \<Rightarrow> int" where
  "activity_footprint ta =
     setup_time (timed_activity ta) + duration (timed_activity ta) + cleanup_time (timed_activity ta)
     + buffer_before ta + buffer_after ta"

text \<open>The \<^verbatim>\<open>TimelineDay\<close> made of the running day.\<close>

definition close_day :: "PackerState \<Rightarrow> TimelineDay" where
  "close_day s = \<lparr>day_number = current_day_number s, date = current_date s,
                  activities = daily_activities s, day_estimated_cost = daily_cost s\<rparr>"

text \<open>The body of the loop for an activity that is in \<^verbatim>\<open>activity_map\<close>: open a new day
  when the activity does not fit, then schedule it in any case. The entry a day keeps is a
  copy with the times set.\<close>

definition schedule_activity :: "TimelineGenerationContext \<Rightarrow> PackerState \<Rightarrow> TimedActivity \<Rightarrow> PackerState" where
  "schedule_activity ctx s ta =
     (let activity_duration = activity_footprint ta;
          day_end_time = get_daily_end_time ctx
                           (combine (current_date s) (time_of_day (gen_start_time ctx)));
          s1 = (if current_time s + activity_duration > day_end_time
                then \<lparr>timeline_days = (if daily_activities s \<noteq> []
                                         then timeline_days s @ [close_day s] else timeline_days s),
                      current_date = current_date s + 1,
                      current_time = combine (current_date s + 1) (time_of_day (gen_start_time ctx)),
                      current_day_number = current_day_number s + 1,
                      daily_activities = [],
                      daily_cost = 0\<rparr>
                else s);
          start = current_time s1 + buffer_before ta;
          finish = start + setup_time (timed_activity ta) + duration (timed_activity ta)
                     + cleanup_time (timed_activity ta)
      in s1\<lparr>daily_activities := daily_activities s1 @ [ta\<lparr>start_time := start, end_time := finish\<rparr>],
            daily_cost := daily_cost s1 + estimated_cost (timed_activity ta),
            current_time := finish + buffer_after ta\<rparr>)"

fun schedule_loop :: "TimelineGenerationContext \<Rightarrow> (string \<rightharpoonup> TimedActivity) \<Rightarrow> PackerState
    \<Rightarrow> string list \<Rightarrow> PackerState" where
  "schedule_loop ctx activity_map s [] = s"
| "schedule_loop ctx activity_map s (aid # rest) =
     (case activity_map aid of
        None \<Rightarrow> schedule_loop ctx activity_map s rest
      | Some ta \<Rightarrow> schedule_loop ctx activity_map (schedule_activity ctx s ta) rest)"

text \<open>\<^verbatim>\<open>TimelineIntelligenceEngine._schedule_activities_to_days\<close>; in the dictionary
  comprehension a later activity with the same id replaces an earlier one.\<close>

definition schedule_activities_to_days :: "TimedActivity list \<Rightarrow> DependencyGraph
    \<Rightarrow> TimelineGenerationContext \<Rightarrow> error + TimelineDay list" where
  "schedule_activities_to_days timed_activities g ctx =
     (case topological_sort g of
        Inl e \<Rightarrow> Inl e
      | Inr activity_order \<Rightarrow>
          (let activity_map = map_of (rev (map (\<lambda>ta. (activity_id (timed_activity ta), ta))
                                             timed_activities));
               s = schedule_loop ctx activity_map
                     \<lparr>timeline_days = [], current_date = gen_start_date ctx,
                      current_time = gen_start_time ctx, current_day_number = 1,
                      daily_activities = [], daily_cost = 0\<rparr>
                     activity_order
           in Inr (if daily_activities s \<noteq> [] then timeline_days s @ [close_day s]
                   else timeline_days s)))"

definition day_total :: "TimedActivity list \<Rightarrow> int" where
  "day_total tas = sum_list (map activity_footprint tas)"

definition packer_inv :: "TimelineGenerationContext \<Rightarrow> PackerState \<Rightarrow> bool" where
  "packer_inv ctx s \<longleftrightarrow>
     (\<forall>day \<in> set (timeline_days s). day_total (activities day) \<le> hours (daily_schedule_hours ctx))
     \<and> (daily_activities s \<noteq> [] \<longrightarrow> day_total (daily_activities s) \<le> hours (daily_schedule_hours ctx))
     \<and> combine (current_date s) (time_of_day (gen_start_time ctx)) + day_total (daily_activities s)
         \<le> current_time s"

lemma activity_footprint_times [simp]:
  "activity_footprint (ta\<lparr>start_time := a, end_time := b\<rparr>) = activity_footprint ta"
  by (simp add: activity_footprint_def)

lemma schedule_activity_inv:
  assumes "packer_inv ctx s" "activity_footprint ta \<le> hours (daily_schedule_hours ctx)"
  shows "packer_inv ctx (schedule_activity ctx s ta)"
proof (cases "current_time s + activity_footprint ta
      > get_daily_end_time ctx (combine (current_date s) (time_of_day (gen_start_time ctx)))")
  case True
  with assms show ?thesis
    by (simp add: schedule_activity_def Let_def packer_inv_def day_total_def close_day_def
        activity_footprint_def)
next
  case False
  with assms show ?thesis
    by (simp add: schedule_activity_def Let_def packer_inv_def day_total_def
        get_daily_end_time_def activity_footprint_def)
qed

lemma schedule_loop_inv:
  "packer_inv ctx s \<Longrightarrow> \<forall>ta \<in> ran m. activity_footprint ta \<le> hours (daily_schedule_hours ctx)
   \<Longrightarrow> packer_inv ctx (schedule_loop ctx m s order)"
proof (induction order arbitrary: s)
  case Nil
  then show ?case by simp
next
  case (Cons aid rest)
  show ?case
  proof (cases "m aid")
    case None
    with Cons show ?thesis by simp
  next
    case (Some ta)
    with Cons.prems(2) have "activity_footprint ta \<le> hours (daily_schedule_hours ctx)"
      by (auto simp: ran_def)
    from Cons.IH[OF schedule_activity_inv[OF Cons.prems(1) this] Cons.prems(2)] Some
    show ?thesis by simp
  qed
qed

text \<open>
  C4, amended. When the context's start time is not before the start of the daily window on
  its start date (the default start time, 10:00 on the start date, is exactly there; a
  \<^verbatim>\<open>start_time\<close> preference need not be) and every timed activity alone fits the window,
  then: the packer returns on every acyclic graph of the builder, and in every day it emits
  the sum over the day's activities of setup, duration, cleanup and both buffers does not
  exceed the window.
\<close>

theorem schedule_days_within_window:
  assumes "combine (gen_start_date ctx) (time_of_day (gen_start_time ctx)) \<le> gen_start_time ctx"
    and "\<forall>ta \<in> set timed_activities. activity_footprint ta \<le> hours (daily_schedule_hours ctx)"
  shows "(graph_inv g \<and> acyclic (dependency_relation g)
            \<longrightarrow> (\<exists>tdays. schedule_activities_to_days timed_activities g ctx = Inr tdays))
       \<and> (\<forall>tdays. schedule_activities_to_days timed_activities g ctx = Inr tdays \<longrightarrow>
            (\<forall>day \<in> set tdays.
               sum_list (map activity_footprint (activities day)) \<le> hours (daily_schedule_hours ctx)))"
proof (intro conjI allI impI)
  assume "graph_inv g \<and> acyclic (dependency_relation g)"
  with topological_sort_cases[of g] obtain r where "topological_sort g = Inr r" by auto
  then show "\<exists>tdays. schedule_activities_to_days timed_activities g ctx = Inr tdays"
    by (simp add: schedule_activities_to_days_def Let_def)
next
  fix tdays assume r: "schedule_activities_to_days timed_activities g ctx = Inr tdays"
  let ?m = "map_of (rev (map (\<lambda>ta. (activity_id (timed_activity ta), ta)) timed_activities))"
  let ?init = "\<lparr>timeline_days = [], current_date = gen_start_date ctx,
              current_time = gen_start_time ctx, current_day_number = 1,
              daily_activities = [], daily_cost = 0\<rparr>"
  from r obtain order where o: "topological_sort g = Inr order"
    by (auto simp: schedule_activities_to_days_def split: sum.splits)
  let ?s = "schedule_loop ctx ?m ?init order"
  from r o have t: "tdays = (if daily_activities ?s \<noteq> [] then timeline_days ?s @ [close_day ?s]
                             else timeline_days ?s)"
    by (simp add: schedule_activities_to_days_def Let_def)
  have i0: "packer_inv ctx ?init" using assms(1) by (simp add: packer_inv_def day_total_def)
  have "ran ?m \<subseteq> set timed_activities"
    by (auto simp: ran_def dest!: map_of_SomeD)
  with assms(2) have "\<forall>ta \<in> ran ?m. activity_footprint ta \<le> hours (daily_schedule_hours ctx)"
    by auto
  from schedule_loop_inv[OF i0 this, of order] have "packer_inv ctx ?s" .
  then show "\<forall>day \<in> set tdays.
      sum_list (map activity_footprint (activities day)) \<le> hours (daily_schedule_hours ctx)"
    unfolding t by (auto simp: packer_inv_def day_total_def close_day_def)
qed

text \<open>The default context (window of 12 hours from 10:00) and a timed activity of \<open>h\<close>
  hours with buffers of 30 and 15 minutes.\<close>

definition default_context :: TimelineGenerationContext where
  "default_context = \<lparr>gen_start_date = 0, gen_start_time = hours 10, daily_schedule_hours = 12\<rparr>"

definition timed :: "string \<Rightarrow> int \<Rightarrow> TimedActivity" where
  "timed i h = \<lparr>timed_activity = (plain_activity i)\<lparr>duration := hours h\<rparr>, start_time = datetime_min,
     end_time = datetime_min, buffer_before = minutes 30, buffer_after = minutes 15\<rparr>"

text \<open>A context whose start time, 10:00 on day 0, lies a day before its start date.\<close>

definition early_context :: TimelineGenerationContext where
  "early_context = \<lparr>gen_start_date = 1, gen_start_time = hours 10, daily_schedule_hours = 12\<rparr>"

text \<open>
  C4, as stated, fails, in two ways. An activity that does not fit the window is scheduled
  all the same after a new day was opened: with the default window of 12 hours, one activity
  of 13 hours gives one day (numbered 2) whose sum is 13 hours 45 minutes. And the first day
  is measured from the context's start time, not from the start of its window: when the
  start time lies a day before the start date, three activities of 5 hours 45 minutes, each
  of which fits the window, all land on day 1, whose sum is 17 hours 15 minutes.
\<close>

theorem schedule_day_exceeds_window:
  "map_sum id (map (\<lambda>day. (day_number day, date day, map activity_footprint (activities day))))
     (schedule_activities_to_days [timed ''a'' 13]
        (add_activity empty_graph (plain_activity ''a'')) default_context)
     = Inr [(2, 1, [hours 13 + minutes 45])]
   \<and> hours 13 + minutes 45 > hours (daily_schedule_hours default_context)
   \<and> gen_start_time early_context
       < combine (gen_start_date early_context) (time_of_day (gen_start_time early_context))
   \<and> list_all (\<lambda>ta. activity_footprint ta \<le> hours (daily_schedule_hours early_context))
       [timed ''a'' 5, timed ''b'' 5, timed ''c'' 5]
   \<and> map_sum id (map (\<lambda>day. (day_number day, date day,
          sum_list (map activity_footprint (activities day)))))
       (schedule_activities_to_days [timed ''a'' 5, timed ''b'' 5, timed ''c'' 5] fork_graph
          early_context)
     = Inr [(1, 1, hours 17 + minutes 15)]
   \<and> hours 17 + minutes 15 > hours (daily_schedule_hours early_context)"
  by code_simp

text \<open>Witness for C4: three activities of 5 hours 45 minutes each make two days.\<close>

theorem schedule_days_within_window_witness:
  "combine (gen_start_date default_context) (time_of_day (gen_start_time default_context))
     \<le> gen_start_time default_context
   \<and> list_all (\<lambda>ta. activity_footprint ta \<le> hours (daily_schedule_hours default_context))
       [timed ''a'' 5, timed ''b'' 5, timed ''c'' 5]
   \<and> graph_inv fork_graph \<and> acyclic (dependency_relation fork_graph)
   \<and> map_sum id (map (\<lambda>day. (day_number day, date day,
          map (\<lambda>ta. activity_id (timed_activity ta)) (activities day),
          sum_list (map activity_footprint (activities day)))))
       (schedule_activities_to_days [timed ''a'' 5, timed ''b'' 5, timed ''c'' 5] fork_graph
          default_context)
     = Inr [(1, 0, [''a'', ''c''], hours 11 + minutes 30), (2, 1, [''b''], hours 5 + minutes 45)]
   \<and> hours 11 + minutes 30 \<le> hours (daily_schedule_hours default_context)"
proof -
  let ?tas = "[timed ''a'' 5, timed ''b'' 5, timed ''c'' 5]"
  have a: "combine (gen_start_date default_context) (time_of_day (gen_start_time default_context))
     \<le> gen_start_time default_context" by code_simp
  have b: "list_all (\<lambda>ta. activity_footprint ta \<le> hours (daily_schedule_hours default_context)) ?tas"
    by code_simp
  then have b': "\<forall>ta \<in> set ?tas. activity_footprint ta \<le> hours (daily_schedule_hours default_context)"
    by (simp only: list_all_iff)
  have e: "map_sum id (map (\<lambda>day. (day_number day, date day,
          map (\<lambda>ta. activity_id (timed_activity ta)) (activities day),
          sum_list (map activity_footprint (activities day)))))
       (schedule_activities_to_days ?tas fork_graph default_context)
     = Inr [(1, 0, [''a'', ''c''], hours 11 + minutes 30), (2, 1, [''b''], hours 5 + minutes 45)]"
    by code_simp
  from schedule_days_within_window[OF a b', of fork_graph] graph_inv_fork_graph acyclic_fork_graph
  obtain tdays where t: "schedule_activities_to_days ?tas fork_graph default_context = Inr tdays"
    and w: "\<forall>day \<in> set tdays. sum_list (map activity_footprint (activities day))
              \<le> hours (daily_schedule_hours default_context)"
    by blast
  from e t have "map (\<lambda>day. sum_list (map activity_footprint (activities day))) tdays
      = [hours 11 + minutes 30, hours 5 + minutes 45]"
    by (auto simp: comp_def)
  then obtain d1 d2 where "tdays = [d1, d2]"
    "sum_list (map activity_footprint (activities d1)) = hours 11 + minutes 30"
    by auto
  with w have "hours 11 + minutes 30 \<le> hours (daily_schedule_hours default_context)" by simp
  with a b e graph_inv_fork_graph acyclic_fork_graph show ?thesis by simp
qed

section \<open>Duplicate dependencies\<close>

lemma add_edge_twice:
  "add_predecessor s p (add_successor p s (add_predecessor s p (add_successor p s ns)))
     = add_predecessor s p (add_successor p s ns)"
  by (induction ns) (auto simp: add_successor_def add_predecessor_def set_add_def)

lemma add_dependency_again:
  assumes r: "add_dependency g d = Inr g1"
    and p: "predecessor_id d2 = predecessor_id d" and s: "successor_id d2 = successor_id d"
    and t: "dependency_type d2 \<in> set dependency_types"
  shows "add_dependency g1 d2 = Inr (g1\<lparr>dependencies := dependencies g1 @ [d2]\<rparr>)"
proof -
  from r have ok: "\<not> dependency_rejected g d"
    and g1: "g1 = g\<lparr>dependencies := dependencies g @ [d],
            nodes := add_predecessor (successor_id d) (predecessor_id d)
                       (add_successor (predecessor_id d) (successor_id d) (nodes g))\<rparr>"
    by (simp_all add: add_dependency_Inr)
  have k: "map fst (nodes g1) = map fst (nodes g)" by (simp add: g1)
  have "fst ` set (nodes g1) = fst ` set (nodes g)"
    using arg_cong[OF k, of set] by (simp only: set_map)
  with ok p s t have ok2: "\<not> dependency_rejected g1 d2" by (simp add: dependency_rejected_def)
  have "add_predecessor (successor_id d2) (predecessor_id d2)
          (add_successor (predecessor_id d2) (successor_id d2) (nodes g1)) = nodes g1"
    by (simp add: g1 p s add_edge_twice)
  with ok2 show ?thesis by (simp add: add_dependency_Inr)
qed





























section \<open>Vendor conflicts\<close>

text \<open>
  \<^verbatim>\<open>_check_resource_conflicts\<close> groups the nodes by vendor name in the order of the node
  dictionary (a \<^verbatim>\<open>defaultdict(list)\<close>, here an association list in insertion order),
  sorts each group of more than one entry by \<^verbatim>\<open>earliest_start or datetime.min\<close> with the
  stable sort, and compares each entry with the next one only.
  \<^verbatim>\<open>resolve_conflicts\<close> puts the cycle message and the negative-slack messages in front.
\<close>

definition quoted :: "string \<Rightarrow> string" where
  "quoted s = [CHR 39] @ s @ [CHR 39]"

definition vendor_conflict :: "string \<Rightarrow> string \<Rightarrow> string \<Rightarrow> string" where
  "vendor_conflict vendor current_name next_name =
     ''Vendor '' @ quoted vendor @ '' conflict between activities '' @ quoted current_name
       @ '' and '' @ quoted next_name"

definition add_vendor_activity :: "string \<Rightarrow> string \<times> DependencyNode
    \<Rightarrow> (string \<times> (string \<times> DependencyNode) list) list
    \<Rightarrow> (string \<times> (string \<times> DependencyNode) list) list" where
  "add_vendor_activity vendor item groups =
     AList.update vendor
       ((case map_of groups vendor of None \<Rightarrow> [] | Some items \<Rightarrow> items) @ [item]) groups"

definition vendor_activities :: "DependencyGraph \<Rightarrow> (string \<times> (string \<times> DependencyNode) list) list" where
  "vendor_activities g =
     fold (\<lambda>(aid, node) groups.
             fold (\<lambda>vendor. add_vendor_activity vendor (aid, node))
               (required_vendors (activity node)) groups)
       (nodes g) []"

definition windows_clash :: "DependencyNode \<Rightarrow> DependencyNode \<Rightarrow> bool" where
  "windows_clash current_node next_node =
     (case (earliest_finish current_node, earliest_start next_node) of
        (Some f, Some s) \<Rightarrow> f > s
      | _ \<Rightarrow> False)"

fun adjacent_conflicts :: "string \<Rightarrow> (string \<times> DependencyNode) list \<Rightarrow> string list" where
  "adjacent_conflicts vendor (current # nxt # rest) =
     (if windows_clash (snd current) (snd nxt)
      then [vendor_conflict vendor (name (activity (snd current))) (name (activity (snd nxt)))]
      else [])
     @ adjacent_conflicts vendor (nxt # rest)"
| "adjacent_conflicts vendor acts = []"

definition vendor_conflicts :: "string \<times> (string \<times> DependencyNode) list \<Rightarrow> string list" where
  "vendor_conflicts entry =
     (case entry of (vendor, acts) \<Rightarrow>
        if length acts > 1
        then adjacent_conflicts vendor (sort_key (\<lambda>x. start_key (Some (snd x))) acts)
        else [])"

definition check_resource_conflicts :: "DependencyGraph \<Rightarrow> string list" where
  "check_resource_conflicts g = concat (map vendor_conflicts (vendor_activities g))"

definition resolve_conflicts :: "DependencyGraph \<Rightarrow> error + string list" where
  "resolve_conflicts g =
     (case has_cycle g of
        Inl e \<Rightarrow> Inl e
      | Inr cyclic \<Rightarrow>
          Inr ((if cyclic
                then [''Circular dependencies detected - some activities depend on each other'']
                else [])
               @ concat (map (\<lambda>(aid, node).
                    if slack node < 0
                    then [''Activity '' @ quoted (name (activity node))
                            @ '' is over-constrained with negative slack'']
                    else []) (nodes g))
               @ check_resource_conflicts g))"

text \<open>
  Three activities that all need the photographer, scheduled by the critical path method
  from 09:00: A runs ten hours, B and C one hour each.
\<close>

definition photo_activity :: "string \<Rightarrow> int \<Rightarrow> Activity" where
  "photo_activity i h = (plain_activity i)\<lparr>duration := hours h, required_vendors := [''photographer'']\<rparr>"

definition photo_graph :: DependencyGraph where
  "photo_graph =
     (case calculate_critical_path
             (fold (\<lambda>a g. add_activity g a)
                [photo_activity ''A'' 10, photo_activity ''B'' 1, photo_activity ''C'' 1] empty_graph)
             (hours 9) of
        Inl e \<Rightarrow> empty_graph | Inr g \<Rightarrow> g)"

text \<open>
  Two scheduled nodes overlap when their half-open windows
  \<open>[earliest_start, earliest_finish)\<close> intersect.
\<close>

definition overlap :: "DependencyNode \<Rightarrow> DependencyNode \<Rightarrow> bool" where
  "overlap n1 n2 =
     (case (earliest_start n1, earliest_finish n1, earliest_start n2, earliest_finish n2) of
        (Some s1, Some f1, Some s2, Some f2) \<Rightarrow> max s1 s2 < min f1 f2
      | _ \<Rightarrow> False)"

text \<open>
  Two activities of which A names the photographer twice in its vendor list, two hours and
  one hour, both from 09:00.
\<close>

definition photo_twice_graph :: DependencyGraph where
  "photo_twice_graph =
     (case calculate_critical_path
             (fold (\<lambda>a g. add_activity g a)
                [(photo_activity ''A'' 2)\<lparr>required_vendors := [''photographer'', ''photographer'']\<rparr>,
                 photo_activity ''B'' 1] empty_graph)
             (hours 9) of
        Inl e \<Rightarrow> empty_graph | Inr g \<Rightarrow> g)"

text \<open>
  C5, as stated, fails, in both halves. A, B and C share the vendor ``photographer'' and
  every two of their windows overlap, yet \<^verbatim>\<open>resolve_conflicts\<close> reports only the pairs A/B
  and B/C, which are neighbours in start order; no entry names A together with C. And of two
  activities that share the photographer and overlap, A naming the vendor twice, it returns
  two entries, the first of which names A with itself.
\<close>

theorem overlapping_pair_not_reported:
  "map (\<lambda>(k, n). (k, required_vendors (activity n), earliest_start n, earliest_finish n))
       (nodes photo_graph)
     = [(''A'', [''photographer''], Some (hours 9), Some (hours 19)),
        (''B'', [''photographer''], Some (hours 9), Some (hours 10)),
        (''C'', [''photographer''], Some (hours 9), Some (hours 10))]
   \<and> list_all (\<lambda>(k1, n1). list_all (\<lambda>(k2, n2). k1 = k2 \<or> overlap n1 n2) (nodes photo_graph))
       (nodes photo_graph)
   \<and> resolve_conflicts photo_graph
     = Inr [vendor_conflict ''photographer'' ''A'' ''B'', vendor_conflict ''photographer'' ''B'' ''C'']
   \<and> vendor_conflict ''photographer'' ''A'' ''C''
       \<notin> set [vendor_conflict ''photographer'' ''A'' ''B'', vendor_conflict ''photographer'' ''B'' ''C'']
   \<and> vendor_conflict ''photographer'' ''C'' ''A''
       \<notin> set [vendor_conflict ''photographer'' ''A'' ''B'', vendor_conflict ''photographer'' ''B'' ''C'']
   \<and> map (\<lambda>(k, n). (k, required_vendors (activity n), earliest_start n, earliest_finish n))
       (nodes photo_twice_graph)
     = [(''A'', [''photographer'', ''photographer''], Some (hours 9), Some (hours 11)),
        (''B'', [''photographer''], Some (hours 9), Some (hours 10))]
   \<and> list_all (\<lambda>(k1, n1). list_all (\<lambda>(k2, n2). k1 = k2 \<or> overlap n1 n2) (nodes photo_twice_graph))
       (nodes photo_twice_graph)
   \<and> resolve_conflicts photo_twice_graph
     = Inr [vendor_conflict ''photographer'' ''A'' ''A'', vendor_conflict ''photographer'' ''A'' ''B'']"
  by code_simp

text \<open>
  The group of a vendor holds, in node order, each node once per occurrence of the vendor
  in its \<^verbatim>\<open>required_vendors\<close>.
\<close>

definition items_of :: "(string \<times> (string \<times> DependencyNode) list) list \<Rightarrow> string
    \<Rightarrow> (string \<times> DependencyNode) list" where
  "items_of gs u = (case map_of gs u of None \<Rightarrow> [] | Some xs \<Rightarrow> xs)"

definition vendor_items :: "DependencyGraph \<Rightarrow> string \<Rightarrow> (string \<times> DependencyNode) list" where
  "vendor_items g u =
     concat (map (\<lambda>(k, n). replicate (count_list (required_vendors (activity n)) u) (k, n)) (nodes g))"

lemma items_of_add_vendor_activity:
  "items_of (add_vendor_activity v item gs) u = items_of gs u @ (if u = v then [item] else [])"
  by (simp add: items_of_def add_vendor_activity_def update_conv')

lemma distinct_add_vendor_activity:
  "distinct (map fst gs) \<Longrightarrow> distinct (map fst (add_vendor_activity v item gs))"
  by (simp add: add_vendor_activity_def distinct_update)

lemma items_of_fold_vendors:
  "items_of (fold (\<lambda>v. add_vendor_activity v item) vs gs) u
     = items_of gs u @ replicate (count_list vs u) item"
  by (induction vs arbitrary: gs) (simp_all add: items_of_add_vendor_activity replicate_app_Cons_same)

lemma distinct_fold_vendors:
  "distinct (map fst gs) \<Longrightarrow> distinct (map fst (fold (\<lambda>v. add_vendor_activity v item) vs gs))"
  by (induction vs arbitrary: gs) (simp_all add: distinct_add_vendor_activity)

lemma items_of_fold_nodes:
  "items_of (fold (\<lambda>(aid, node) groups.
             fold (\<lambda>vendor. add_vendor_activity vendor (aid, node))
               (required_vendors (activity node)) groups) ns gs) u
     = items_of gs u
       @ concat (map (\<lambda>(k, n). replicate (count_list (required_vendors (activity n)) u) (k, n)) ns)"
  by (induction ns arbitrary: gs) (auto simp: items_of_fold_vendors)

lemma distinct_fold_nodes:
  "distinct (map fst gs) \<Longrightarrow>
   distinct (map fst (fold (\<lambda>(aid, node) groups.
             fold (\<lambda>vendor. add_vendor_activity vendor (aid, node))
               (required_vendors (activity node)) groups) ns gs))"
  by (induction ns arbitrary: gs) (auto simp: distinct_fold_vendors)

lemma items_of_vendor_activities: "items_of (vendor_activities g) u = vendor_items g u"
proof -
  have "items_of [] u = []" by (simp add: items_of_def)
  then show ?thesis
    unfolding vendor_activities_def vendor_items_def items_of_fold_nodes by simp
qed

lemma distinct_vendor_activities: "distinct (map fst (vendor_activities g))"
  unfolding vendor_activities_def by (rule distinct_fold_nodes) simp

lemma set_vendor_items:
  "set (vendor_items g u) = {(k, n) \<in> set (nodes g). u \<in> set (required_vendors (activity n))}"
  by (auto simp: vendor_items_def count_list_0_iff)

lemma vendor_group_member:
  "vendor_items g u \<noteq> [] \<Longrightarrow> (u, vendor_items g u) \<in> set (vendor_activities g)"
proof -
  assume "vendor_items g u \<noteq> []"
  then have "items_of (vendor_activities g) u \<noteq> []" by (simp add: items_of_vendor_activities)
  then obtain xs where "map_of (vendor_activities g) u = Some xs"
    by (cases "map_of (vendor_activities g) u") (auto simp: items_of_def)
  moreover from this have "xs = vendor_items g u"
    using items_of_vendor_activities[of g u] by (simp add: items_of_def)
  ultimately show ?thesis by (auto dest: map_of_SomeD)
qed

lemma vendor_group_items:
  "(u, xs) \<in> set (vendor_activities g) \<Longrightarrow> xs = vendor_items g u"
proof -
  assume "(u, xs) \<in> set (vendor_activities g)"
  with distinct_vendor_activities[of g] have "map_of (vendor_activities g) u = Some xs" by simp
  with items_of_vendor_activities[of g u] show ?thesis by (simp add: items_of_def)
qed

lemma adjacent_conflicts_suffix:
  "set (adjacent_conflicts v xs) \<subseteq> set (adjacent_conflicts v (pre @ xs))"
proof (induction pre)
  case Nil
  show ?case by simp
next
  case (Cons p pre)
  show ?case
  proof (cases "pre @ xs")
    case Nil
    then show ?thesis by simp
  next
    case (Cons q qs)
    with Cons.IH show ?thesis by auto
  qed
qed

text \<open>A node is scheduled when the forward pass has set both of its earliest times.\<close>

definition scheduled :: "DependencyNode \<Rightarrow> bool" where
  "scheduled n \<longleftrightarrow> earliest_start n \<noteq> None \<and> earliest_finish n \<noteq> None"

lemma adjacent_conflicts_head:
  assumes srt: "sorted (map (\<lambda>x. start_key (Some (snd x))) (a # rest))"
    and b: "b \<in> set rest" and sch: "\<forall>x \<in> set (a # rest). scheduled (snd x)"
    and clash: "windows_clash (snd a) (snd b)"
  shows "\<exists>c d. vendor_conflict v c d \<in> set (adjacent_conflicts v (a # rest))"
proof -
  from b obtain z rest' where r: "rest = z # rest'" by (cases rest) auto
  from srt b r have le: "start_key (Some (snd z)) \<le> start_key (Some (snd b))" by auto
  from sch r b obtain fa sz sb where t: "earliest_finish (snd a) = Some fa"
    "earliest_start (snd z) = Some sz" "earliest_start (snd b) = Some sb"
    by (auto simp: scheduled_def)
  from clash t have "fa > sb" by (simp add: windows_clash_def)
  with le t have "windows_clash (snd a) (snd z)" by (simp add: windows_clash_def start_key_def)
  then show ?thesis unfolding r by auto
qed

lemma two_elements_split:
  assumes "x \<in> set xs" "y \<in> set xs" "x \<noteq> y"
  shows "\<exists>pre a rest b. xs = pre @ a # rest \<and> b \<in> set rest \<and> ((a = x \<and> b = y) \<or> (a = y \<and> b = x))"
proof -
  from assms(1) obtain p1 r1 where s1: "xs = p1 @ x # r1" by (auto dest: split_list)
  show ?thesis
  proof (cases "y \<in> set r1")
    case True
    with s1 show ?thesis by blast
  next
    case False
    with assms(2,3) s1 have "y \<in> set p1" by auto
    then obtain p2 r2 where "p1 = p2 @ y # r2" by (auto dest: split_list)
    with s1 have "xs = p2 @ y # (r2 @ x # r1)" "x \<in> set (r2 @ x # r1)" by simp_all
    then show ?thesis by blast
  qed
qed

lemma overlap_clash:
  "overlap n1 n2 \<Longrightarrow> windows_clash n1 n2 \<and> windows_clash n2 n1 \<and> scheduled n1 \<and> scheduled n2"
  by (auto simp: overlap_def windows_clash_def scheduled_def split: option.splits)

text \<open>
  The activities that need a vendor in the order in which the code compares them: by
  earliest start, those with the same start in the order of the node dictionary.
\<close>

definition vendor_order :: "DependencyGraph \<Rightarrow> string \<Rightarrow> (string \<times> DependencyNode) list" where
  "vendor_order g v = sort_key (\<lambda>x. start_key (Some (snd x))) (vendor_items g v)"

text \<open>The second node starts while the first is running: at or after its start and before
  its finish.\<close>

definition starts_within :: "DependencyNode \<Rightarrow> DependencyNode \<Rightarrow> bool" where
  "starts_within n1 n2 =
     (case (earliest_start n1, earliest_finish n1, earliest_start n2) of
        (Some s1, Some f1, Some s2) \<Rightarrow> s1 \<le> s2 \<and> s2 < f1
      | _ \<Rightarrow> False)"

lemma adjacent_conflicts_nth:
  "Suc i < length acts \<Longrightarrow> windows_clash (snd (acts ! i)) (snd (acts ! Suc i))
   \<Longrightarrow> vendor_conflict v (name (activity (snd (acts ! i)))) (name (activity (snd (acts ! Suc i))))
         \<in> set (adjacent_conflicts v acts)"
proof (induction v acts arbitrary: i rule: adjacent_conflicts.induct)
  case (1 vendor current nxt rest)
  show ?case
  proof (cases i)
    case 0
    with "1.prems" show ?thesis by simp
  next
    case (Suc j)
    with "1.prems" "1.IH"[of j] show ?thesis by simp
  qed
qed simp_all

lemma neighbours_reported:
  assumes "Suc i < length (vendor_order g v)"
    and "windows_clash (snd (vendor_order g v ! i)) (snd (vendor_order g v ! Suc i))"
  shows "vendor_conflict v (name (activity (snd (vendor_order g v ! i))))
           (name (activity (snd (vendor_order g v ! Suc i))))
         \<in> set (check_resource_conflicts g)"
proof -
  from assms(1) have len: "length (vendor_items g v) > 1" by (simp add: vendor_order_def)
  then have "vendor_items g v \<noteq> []" by auto
  from vendor_group_member[OF this]
  have "set (vendor_conflicts (v, vendor_items g v)) \<subseteq> set (check_resource_conflicts g)"
    by (auto simp: check_resource_conflicts_def)
  with len have "set (adjacent_conflicts v (vendor_order g v)) \<subseteq> set (check_resource_conflicts g)"
    by (simp add: vendor_conflicts_def vendor_order_def)
  with adjacent_conflicts_nth[OF assms] show ?thesis by auto
qed

lemma set_vendor_order:
  "set (vendor_order g v)
     = {(k, n). (k, n) \<in> set (nodes g) \<and> v \<in> set (required_vendors (activity n))}"
  by (auto simp: vendor_order_def set_vendor_items)

lemma shared_vendor_conflict:
  assumes x: "(k1, n1) \<in> set (nodes g)" and y: "(k2, n2) \<in> set (nodes g)" and ne: "k1 \<noteq> k2"
    and v1: "v \<in> set (required_vendors (activity n1))"
    and v2: "v \<in> set (required_vendors (activity n2))"
    and sch: "\<forall>(k, n) \<in> set (nodes g). scheduled n"
    and ov: "overlap n1 n2"
  shows "\<exists>(k, n) \<in> set (nodes g). v \<in> set (required_vendors (activity n))
           \<and> ((starts_within n1 n
                 \<and> vendor_conflict v (name (activity n1)) (name (activity n))
                     \<in> set (check_resource_conflicts g))
              \<or> (starts_within n2 n
                 \<and> vendor_conflict v (name (activity n2)) (name (activity n))
                     \<in> set (check_resource_conflicts g)))"
proof -
  let ?key = "\<lambda>x. start_key (Some (snd x))"
  let ?L = "vendor_order g v"
  have m: "(k1, n1) \<in> set ?L" "(k2, n2) \<in> set ?L"
    using x y v1 v2 by (simp_all add: set_vendor_order)
  from two_elements_split[OF this] ne obtain pre a rest b where
    L: "?L = pre @ a # rest" and b: "b \<in> set rest"
    and ab: "(a = (k1, n1) \<and> b = (k2, n2)) \<or> (a = (k2, n2) \<and> b = (k1, n1))"
    by blast
  from b obtain z rest' where r: "rest = z # rest'" by (cases rest) auto
  have "sorted (map ?key ?L)" unfolding vendor_order_def by (rule sorted_sort_key)
  then have srt: "sorted (map ?key (a # rest))" unfolding L by (auto simp: sorted_append)
  with r b have le: "?key a \<le> ?key z" "?key z \<le> ?key b" by auto
  have zL: "z \<in> set ?L" unfolding L r by simp
  then have zn: "z \<in> set (nodes g)" "v \<in> set (required_vendors (activity (snd z)))"
    by (auto simp: set_vendor_order)
  with sch have sz: "scheduled (snd z)" by (cases z) auto
  from ab overlap_clash[OF ov] have c: "windows_clash (snd a) (snd b)"
    and sa: "scheduled (snd a)" and sb: "scheduled (snd b)" by auto
  from sa sb sz obtain ta fa tb tz where t: "earliest_start (snd a) = Some ta"
    "earliest_finish (snd a) = Some fa" "earliest_start (snd b) = Some tb"
    "earliest_start (snd z) = Some tz"
    by (auto simp: scheduled_def)
  from c t have "fa > tb" by (simp add: windows_clash_def)
  with le t have w: "starts_within (snd a) (snd z)" and cz: "windows_clash (snd a) (snd z)"
    by (simp_all add: starts_within_def windows_clash_def start_key_def)
  have i: "Suc (length pre) < length ?L" "?L ! length pre = a" "?L ! Suc (length pre) = z"
    unfolding L r by (simp_all add: nth_append)
  from neighbours_reported[OF i(1)] cz i(2,3)
  have e: "vendor_conflict v (name (activity (snd a))) (name (activity (snd z)))
             \<in> set (check_resource_conflicts g)" by simp
  from ab show ?thesis
  proof
    assume "a = (k1, n1) \<and> b = (k2, n2)"
    with w e zn show ?thesis by (cases z) auto
  next
    assume "a = (k2, n2) \<and> b = (k1, n1)"
    with w e zn show ?thesis by (cases z) auto
  qed
qed

lemma count_list_distinct:
  "distinct xs \<Longrightarrow> count_list xs u = (if u \<in> set xs then 1 else 0)"
  by (induction xs) auto

lemma concat_map_single:
  assumes "distinct (map fst gs)" "(v, xs) \<in> set gs"
    and "\<forall>(u, ys) \<in> set gs. u \<noteq> v \<longrightarrow> F (u, ys) = []"
  shows "concat (map F gs) = F (v, xs)"
  using assms
proof (induction gs)
  case Nil
  then show ?case by simp
next
  case (Cons p gs)
  show ?case
  proof (cases "p = (v, xs)")
    case True
    with Cons.prems(1) have "\<forall>(u, ys) \<in> set gs. u \<noteq> v" by force
    with Cons.prems(3) have "\<forall>q \<in> set gs. F q = []" by auto
    then have "concat (map F gs) = []" by (induction gs) auto
    with True show ?thesis by simp
  next
    case False
    with Cons.prems(2) have m: "(v, xs) \<in> set gs" by simp
    then have "v \<in> fst ` set gs" by force
    with Cons.prems(1) have "fst p \<noteq> v" by auto
    with Cons.prems(3) have "F p = []" by (cases p) auto
    moreover from Cons.IH[OF _ m] Cons.prems have "concat (map F gs) = F (v, xs)" by simp
    ultimately show ?thesis by simp
  qed
qed

text \<open>
  The entry reported for two nodes of one group: the one that starts first is named first,
  and on equal starts the one that comes first in the node dictionary.
\<close>

definition first_conflict :: "string \<Rightarrow> DependencyNode \<Rightarrow> DependencyNode \<Rightarrow> string" where
  "first_conflict v n1 n2 =
     (if start_key (Some n1) \<le> start_key (Some n2)
      then vendor_conflict v (name (activity n1)) (name (activity n2))
      else vendor_conflict v (name (activity n2)) (name (activity n1)))"

lemma two_activities_one_conflict:
  assumes ns: "nodes g = [(k1, n1), (k2, n2)]"
    and d1: "distinct (required_vendors (activity n1))"
    and d2: "distinct (required_vendors (activity n2))"
    and sh: "set (required_vendors (activity n1)) \<inter> set (required_vendors (activity n2)) = {v}"
    and ov: "overlap n1 n2"
  shows "check_resource_conflicts g = [first_conflict v n1 n2]"
proof -
  let ?x = "(k1, n1)" and ?y = "(k2, n2)"
  have items: "vendor_items g u
      = (if u \<in> set (required_vendors (activity n1)) then [?x] else [])
        @ (if u \<in> set (required_vendors (activity n2)) then [?y] else [])" for u
    by (simp add: vendor_items_def ns count_list_distinct[OF d1] count_list_distinct[OF d2])
  from sh have v12: "v \<in> set (required_vendors (activity n1))" "v \<in> set (required_vendors (activity n2))"
    by auto
  then have iv: "vendor_items g v = [?x, ?y]" by (simp add: items)
  then have mem: "(v, [?x, ?y]) \<in> set (vendor_activities g)"
    using vendor_group_member[of g v] by simp
  have other: "\<forall>(u, ys) \<in> set (vendor_activities g). u \<noteq> v \<longrightarrow> vendor_conflicts (u, ys) = []"
  proof (clarify)
    fix u ys assume a: "(u, ys) \<in> set (vendor_activities g)" and "u \<noteq> v"
    with sh have "\<not> (u \<in> set (required_vendors (activity n1)) \<and> u \<in> set (required_vendors (activity n2)))"
      by auto
    then have "length (vendor_items g u) \<le> 1" by (auto simp: items)
    with vendor_group_items[OF a] show "vendor_conflicts (u, ys) = []"
      by (simp add: vendor_conflicts_def)
  qed
  from concat_map_single[OF distinct_vendor_activities mem other]
  have "check_resource_conflicts g = vendor_conflicts (v, [?x, ?y])"
    by (simp add: check_resource_conflicts_def)
  also have "\<dots> = [first_conflict v n1 n2]"
    using overlap_clash[OF ov] by (simp add: vendor_conflicts_def first_conflict_def)
  finally show ?thesis .
qed

text \<open>
  C5, amended: on a well-formed graph whose nodes are all scheduled \<^verbatim>\<open>resolve_conflicts\<close>
  returns a list of messages such that
  (a) for every vendor, every two activities that need it and are neighbours in its start
  order, the first not finished when the second starts, have a conflict entry naming the
  vendor and both activities;
  (b) so for every two distinct activities that share a required-vendor name and whose
  windows \<open>[earliest_start, earliest_finish)\<close> overlap, there is a conflict entry for that
  vendor that names one of the two first and, second, an activity that needs the vendor and
  starts while the first-named is running (not necessarily the other of the two);
  (c) when the graph holds exactly two activities, neither names a vendor twice, they share
  exactly one vendor name, their windows overlap, and there is no cycle and no negative
  slack, the list is exactly one entry, naming the vendor and both activity names, the
  earlier-starting one first.
\<close>

theorem vendor_conflicts_reported:
  assumes g: "graph_inv g" and sch: "\<forall>(k, n) \<in> set (nodes g). scheduled n"
  shows "\<exists>cs. resolve_conflicts g = Inr cs
     \<and> (\<forall>v i. Suc i < length (vendor_order g v)
           \<and> windows_clash (snd (vendor_order g v ! i)) (snd (vendor_order g v ! Suc i))
           \<longrightarrow> vendor_conflict v (name (activity (snd (vendor_order g v ! i))))
                 (name (activity (snd (vendor_order g v ! Suc i)))) \<in> set cs)
     \<and> (\<forall>(k1, n1) \<in> set (nodes g). \<forall>(k2, n2) \<in> set (nodes g). \<forall>v.
           k1 \<noteq> k2 \<and> v \<in> set (required_vendors (activity n1))
           \<and> v \<in> set (required_vendors (activity n2)) \<and> overlap n1 n2
           \<longrightarrow> (\<exists>(k, n) \<in> set (nodes g). v \<in> set (required_vendors (activity n))
                  \<and> ((starts_within n1 n
                        \<and> vendor_conflict v (name (activity n1)) (name (activity n)) \<in> set cs)
                     \<or> (starts_within n2 n
                        \<and> vendor_conflict v (name (activity n2)) (name (activity n)) \<in> set cs))))
     \<and> (\<forall>k1 n1 k2 n2 v.
           nodes g = [(k1, n1), (k2, n2)]
           \<and> distinct (required_vendors (activity n1)) \<and> distinct (required_vendors (activity n2))
           \<and> set (required_vendors (activity n1)) \<inter> set (required_vendors (activity n2)) = {v}
           \<and> overlap n1 n2 \<and> acyclic (dependency_relation g) \<and> 0 \<le> slack n1 \<and> 0 \<le> slack n2
           \<longrightarrow> cs = [first_conflict v n1 n2])"
proof -
  from has_cycle_sound[OF graph_inv_closed[OF g]] obtain b where
    b: "has_cycle g = Inr b" "b \<longrightarrow> \<not> acyclic (dependency_relation g)"
    by (auto simp: graph_inv_successor_relation[OF g])
  define cs where "cs = (if b
                then [''Circular dependencies detected - some activities depend on each other'']
                else [])
               @ concat (map (\<lambda>(aid, node).
                    if slack node < 0
                    then [''Activity '' @ quoted (name (activity node))
                            @ '' is over-constrained with negative slack'']
                    else []) (nodes g))
               @ check_resource_conflicts g"
  have r: "resolve_conflicts g = Inr cs" by (simp add: resolve_conflicts_def b(1) cs_def)
  have sub: "set (check_resource_conflicts g) \<subseteq> set cs" by (auto simp: cs_def)
  have n: "\<forall>v i. Suc i < length (vendor_order g v)
           \<and> windows_clash (snd (vendor_order g v ! i)) (snd (vendor_order g v ! Suc i))
           \<longrightarrow> vendor_conflict v (name (activity (snd (vendor_order g v ! i))))
                 (name (activity (snd (vendor_order g v ! Suc i)))) \<in> set cs"
    using neighbours_reported[of _ g] sub by blast
  have a: "\<forall>(k1, n1) \<in> set (nodes g). \<forall>(k2, n2) \<in> set (nodes g). \<forall>v.
           k1 \<noteq> k2 \<and> v \<in> set (required_vendors (activity n1))
           \<and> v \<in> set (required_vendors (activity n2)) \<and> overlap n1 n2
           \<longrightarrow> (\<exists>(k, n) \<in> set (nodes g). v \<in> set (required_vendors (activity n))
                  \<and> ((starts_within n1 n
                        \<and> vendor_conflict v (name (activity n1)) (name (activity n)) \<in> set cs)
                     \<or> (starts_within n2 n
                        \<and> vendor_conflict v (name (activity n2)) (name (activity n)) \<in> set cs)))"
  proof (intro ballI allI impI, clarify)
    fix k1 n1 k2 n2 v
    assume "(k1, n1) \<in> set (nodes g)" "(k2, n2) \<in> set (nodes g)" "k1 \<noteq> k2"
      "v \<in> set (required_vendors (activity n1))" "v \<in> set (required_vendors (activity n2))"
      "overlap n1 n2"
    from shared_vendor_conflict[OF this(1-5) sch this(6)] obtain k n where
      kn: "(k, n) \<in> set (nodes g)" "v \<in> set (required_vendors (activity n))"
      and d: "(starts_within n1 n
                 \<and> vendor_conflict v (name (activity n1)) (name (activity n))
                     \<in> set (check_resource_conflicts g))
              \<or> (starts_within n2 n
                 \<and> vendor_conflict v (name (activity n2)) (name (activity n))
                     \<in> set (check_resource_conflicts g))"
      by blast
    from d sub have "(starts_within n1 n
                        \<and> vendor_conflict v (name (activity n1)) (name (activity n)) \<in> set cs)
                     \<or> (starts_within n2 n
                        \<and> vendor_conflict v (name (activity n2)) (name (activity n)) \<in> set cs)"
      by blast
    with kn show "\<exists>(k, n) \<in> set (nodes g). v \<in> set (required_vendors (activity n))
                  \<and> ((starts_within n1 n
                        \<and> vendor_conflict v (name (activity n1)) (name (activity n)) \<in> set cs)
                     \<or> (starts_within n2 n
                        \<and> vendor_conflict v (name (activity n2)) (name (activity n)) \<in> set cs))"
      by (intro bexI[of _ "(k, n)"]) simp_all
  qed
  have t: "\<forall>k1 n1 k2 n2 v.
           nodes g = [(k1, n1), (k2, n2)]
           \<and> distinct (required_vendors (activity n1)) \<and> distinct (required_vendors (activity n2))
           \<and> set (required_vendors (activity n1)) \<inter> set (required_vendors (activity n2)) = {v}
           \<and> overlap n1 n2 \<and> acyclic (dependency_relation g) \<and> 0 \<le> slack n1 \<and> 0 \<le> slack n2
           \<longrightarrow> cs = [first_conflict v n1 n2]"
  proof (intro allI impI, elim conjE)
    fix k1 n1 k2 n2 v
    assume ns: "nodes g = [(k1, n1), (k2, n2)]"
      and h: "distinct (required_vendors (activity n1))" "distinct (required_vendors (activity n2))"
        "set (required_vendors (activity n1)) \<inter> set (required_vendors (activity n2)) = {v}"
        "overlap n1 n2"
      and ac: "acyclic (dependency_relation g)" and sl: "0 \<le> slack n1" "0 \<le> slack n2"
    from ac b(2) have "\<not> b" by auto
    with sl show "cs = [first_conflict v n1 n2]"
      by (simp add: cs_def ns two_activities_one_conflict[OF ns h])
  qed
  from r n a t show ?thesis by blast
qed

text \<open>Two activities that need the photographer, two hours and one hour, both from 09:00.\<close>

definition photo_pair_graph :: DependencyGraph where
  "photo_pair_graph =
     (case calculate_critical_path
             (fold (\<lambda>a g. add_activity g a)
                [photo_activity ''A'' 2, photo_activity ''B'' 1] empty_graph)
             (hours 9) of
        Inl e \<Rightarrow> empty_graph | Inr g \<Rightarrow> g)"

text \<open>
  Witness for C5: on the graph of the two photographer activities the hypotheses of both
  parts hold, and the theorem gives the single entry naming A, B and the photographer.
\<close>

theorem vendor_conflicts_reported_witness:
  "graph_inv photo_pair_graph
   \<and> list_all (\<lambda>(k, n). scheduled n) (nodes photo_pair_graph)
   \<and> map (\<lambda>(k, n). (k, required_vendors (activity n), earliest_start n, earliest_finish n, slack n))
       (nodes photo_pair_graph)
     = [(''A'', [''photographer''], Some (hours 9), Some (hours 11), 0),
        (''B'', [''photographer''], Some (hours 9), Some (hours 10), hours 1)]
   \<and> acyclic (dependency_relation photo_pair_graph)
   \<and> resolve_conflicts photo_pair_graph = Inr [vendor_conflict ''photographer'' ''A'' ''B'']"
proof -
  have gi: "graph_inv photo_pair_graph" by code_simp
  have s: "list_all (\<lambda>(k, n). scheduled n) (nodes photo_pair_graph)" by code_simp
  then have s': "\<forall>(k, n) \<in> set (nodes photo_pair_graph). scheduled n" by (simp only: list_all_iff)
  have m: "map (\<lambda>(k, n). (k, required_vendors (activity n), earliest_start n, earliest_finish n, slack n))
       (nodes photo_pair_graph)
     = [(''A'', [''photographer''], Some (hours 9), Some (hours 11), 0),
        (''B'', [''photographer''], Some (hours 9), Some (hours 10), hours 1)]"
    by code_simp
  have "dependencies photo_pair_graph = []" by code_simp
  then have ac: "acyclic (dependency_relation photo_pair_graph)"
    by (simp add: dependency_relation_def acyclic_def)
  from m obtain n1 n2 where ns: "nodes photo_pair_graph = [(''A'', n1), (''B'', n2)]"
    and f: "required_vendors (activity n1) = [''photographer'']"
      "required_vendors (activity n2) = [''photographer'']"
      "earliest_start n1 = Some (hours 9)" "earliest_finish n1 = Some (hours 11)"
      "earliest_start n2 = Some (hours 9)" "earliest_finish n2 = Some (hours 10)"
      "slack n1 = 0" "slack n2 = hours 1"
    by (auto simp: map_eq_Cons_conv)
  have ov: "overlap n1 n2"
    by (simp add: overlap_def f hours_def microseconds_per_minute_def)
  have c: "[first_conflict ''photographer'' n1 n2] = [vendor_conflict ''photographer'' ''A'' ''B'']"
  proof -
    have "map (\<lambda>(k, n). name (activity n)) (nodes photo_pair_graph) = [''A'', ''B'']" by code_simp
    then show ?thesis by (simp add: ns first_conflict_def start_key_def f)
  qed
  from vendor_conflicts_reported[OF gi s'] obtain cs where
    r: "resolve_conflicts photo_pair_graph = Inr cs"
    and t: "\<forall>k1 n1 k2 n2 v.
           nodes photo_pair_graph = [(k1, n1), (k2, n2)]
           \<and> distinct (required_vendors (activity n1)) \<and> distinct (required_vendors (activity n2))
           \<and> set (required_vendors (activity n1)) \<inter> set (required_vendors (activity n2)) = {v}
           \<and> overlap n1 n2 \<and> acyclic (dependency_relation photo_pair_graph)
           \<and> 0 \<le> slack n1 \<and> 0 \<le> slack n2
           \<longrightarrow> cs = [first_conflict v n1 n2]"
    by blast
  from t[rule_format, of "''A''" n1 "''B''" n2 "''photographer''"] ns ov ac
  have "cs = [first_conflict ''photographer'' n1 n2]"
    by (simp add: f hours_def microseconds_per_minute_def)
  with r c gi s m ac show ?thesis by simp
qed

section \<open>Buffer time\<close>

text \<open>
  \<^verbatim>\<open>calculate_buffer_time\<close> computes in Python floats, which are IEEE 754 binary64
  numbers. A finite float is the rational it denotes, and every float operation is the
  exact operation followed by \<open>double\<close>, the rounding to the nearest number with a
  significand of 53 bits, ties to the even significand. The range of the exponent is left
  out: the values computed here from a \<^verbatim>\<open>timedelta\<close> are zero or of a magnitude between
  \<open>10\<^sup>-\<^sup>1\<^sup>0\<close> and \<open>10\<^sup>1\<^sup>5\<close>, far from overflow and from the subnormal numbers.
\<close>

text \<open>The number of binary digits of a positive integer (\<^verbatim>\<open>int.bit_length\<close>).\<close>

function bit_length :: "int \<Rightarrow> nat" where
  "bit_length n = (if n \<le> 0 then 0 else Suc (bit_length (n div 2)))"
  by auto
termination by (relation "measure nat") auto

declare bit_length.simps [simp del]

text \<open>Rounding to the nearest integer, ties to the even one.\<close>

definition round_half_even :: "rat \<Rightarrow> int" where
  "round_half_even x =
     (let n = \<lfloor>x\<rfloor>; r = x - of_int n
      in if r < 1 / 2 then n else if 1 / 2 < r then n + 1 else if even n then n else n + 1)"

text \<open>The binary exponent of a rational other than zero, \<open>\<lfloor>log\<^sub>2 \<bar>x\<bar>\<rfloor>\<close>, from the
  lengths of numerator and denominator.\<close>

definition exponent :: "rat \<Rightarrow> int" where
  "exponent x =
     (case quotient_of \<bar>x\<bar> of (p, q) \<Rightarrow>
        (let k = int (bit_length p) - int (bit_length q)
         in if 2 powi k \<le> \<bar>x\<bar> then k else k - 1))"

text \<open>The binary64 number nearest to a rational: the unit in the last place is
  \<open>2\<close> to the exponent less 52.\<close>

definition double :: "rat \<Rightarrow> rat" where
  "double x =
     (if x = 0 then 0
      else (let ulp = 2 powi (exponent x - 52)
            in of_int (round_half_even (x / ulp)) * ulp))"

text \<open>The integral part that \<^verbatim>\<open>modf\<close> splits off, rounded towards zero.\<close>

definition trunc :: "rat \<Rightarrow> int" where
  "trunc x = (if 0 \<le> x then \<lfloor>x\<rfloor> else \<lceil>x\<rceil>)"

text \<open>\<^verbatim>\<open>timedelta.total_seconds()\<close>, the correctly rounded quotient of the microseconds by
  \<open>10\<^sup>6\<close>, and the product of two floats.\<close>

definition total_seconds :: "int \<Rightarrow> rat" where
  "total_seconds t = double (of_int t / 1000000)"

definition float_mul :: "rat \<Rightarrow> rat \<Rightarrow> rat" where
  "float_mul x y = double (x * y)"

text \<open>
  \<^verbatim>\<open>timedelta(seconds=x)\<close> for a float \<open>x\<close>: the whole seconds are taken exactly, the
  fraction is multiplied by \<open>10\<^sup>6\<close> as a float and rounded to a whole number of
  microseconds, ties to even. The constructor raises \<^verbatim>\<open>OverflowError\<close> when the days of
  the result exceed 999999999 in magnitude.
\<close>

definition microseconds :: "rat \<Rightarrow> int" where
  "microseconds x =
     trunc x * 1000000 + round_half_even (double ((x - of_int (trunc x)) * 1000000))"

definition timedelta_of_seconds :: "rat \<Rightarrow> error + int" where
  "timedelta_of_seconds x =
     (let us = microseconds x
      in if 999999999 < \<bar>us div days 1\<bar> then Inl OverflowError else Inr us)"

text \<open>A complexity score is a float: a finite number, an infinity or a NaN. \<^verbatim>\<open>score <= n\<close>
  is false for a NaN.\<close>

datatype pyfloat = Finite rat | PosInf | NegInf | NaN

definition float_le_int :: "pyfloat \<Rightarrow> int \<Rightarrow> bool" where
  "float_le_int x n =
     (case x of Finite q \<Rightarrow> q \<le> of_int n | PosInf \<Rightarrow> False | NegInf \<Rightarrow> True | NaN \<Rightarrow> False)"

text \<open>The three tables of \<^verbatim>\<open>_initialize_buffer_rules\<close>; a literal denotes the nearest float.\<close>

definition priority_multipliers :: "(Priority \<times> rat) list" where
  "priority_multipliers =
     [(CRITICAL, double (15 / 100)), (HIGH, double (20 / 100)), (MEDIUM, double (25 / 100)),
      (LOW, double (30 / 100)), (OPTIONAL, double (35 / 100))]"

definition complexity_multipliers :: "(string \<times> rat) list" where
  "complexity_multipliers =
     [(''low'', double 1), (''medium'', double (12 / 10)), (''high'', double (15 / 10)),
      (''very_high'', double 2)]"

definition dependency_multipliers :: "(string \<times> rat) list" where
  "dependency_multipliers =
     [(''no_dependencies'', double 1), (''few_dependencies'', double (11 / 10)),
      (''many_dependencies'', double (13 / 10)), (''complex_dependencies'', double (15 / 10))]"

text \<open>\<^verbatim>\<open>_get_complexity_level\<close> and \<^verbatim>\<open>_get_dependency_level\<close>.\<close>

definition get_complexity_level :: "pyfloat \<Rightarrow> string" where
  "get_complexity_level complexity_score =
     (if float_le_int complexity_score 3 then ''low''
      else if float_le_int complexity_score 6 then ''medium''
      else if float_le_int complexity_score 8 then ''high''
      else ''very_high'')"

definition get_dependency_level :: "int \<Rightarrow> string" where
  "get_dependency_level dependency_count =
     (if dependency_count = 0 then ''no_dependencies''
      else if dependency_count \<le> 2 then ''few_dependencies''
      else if dependency_count \<le> 5 then ''many_dependencies''
      else ''complex_dependencies'')"

text \<open>\<^verbatim>\<open>DependencyManager.calculate_buffer_time\<close>; \<^verbatim>\<open>dict.get\<close> has a default, the two
  subscripts raise \<^verbatim>\<open>KeyError\<close> on a missing key, and each \<^verbatim>\<open>timedelta\<close> may raise.\<close>

definition calculate_buffer_time :: "Activity \<Rightarrow> pyfloat \<Rightarrow> int \<Rightarrow> error + int" where
  "calculate_buffer_time a complexity_score dependency_count =
     (let base_buffer_percentage =
            (case map_of priority_multipliers (priority a) of
               None \<Rightarrow> double (25 / 100) | Some v \<Rightarrow> v);
          complexity_level = get_complexity_level complexity_score
      in case map_of complexity_multipliers complexity_level of
           None \<Rightarrow> Inl (KeyError complexity_level)
         | Some complexity_multiplier \<Rightarrow>
             (let dependency_level = get_dependency_level dependency_count
              in case map_of dependency_multipliers dependency_level of
                   None \<Rightarrow> Inl (KeyError dependency_level)
                 | Some dependency_multiplier \<Rightarrow>
                     (case timedelta_of_seconds
                             (float_mul (total_seconds (duration a)) base_buffer_percentage) of
                        Inl e \<Rightarrow> Inl e
                      | Inr base_buffer \<Rightarrow>
                          (let total_multiplier = float_mul complexity_multiplier dependency_multiplier
                           in case timedelta_of_seconds
                                     (float_mul (total_seconds base_buffer) total_multiplier) of
                                Inl e \<Rightarrow> Inl e
                              | Inr buffer_time \<Rightarrow>
                                  (let min_buffer = minutes 15;
                                       max_buffer = hours 2
                                   in Inr (max min_buffer (min buffer_time max_buffer)))))))"

text \<open>The factors as the specification names them, as exact decimals.\<close>

fun basePercentage :: "Priority \<Rightarrow> rat" where
  "basePercentage CRITICAL = 15 / 100"
| "basePercentage HIGH = 20 / 100"
| "basePercentage MEDIUM = 25 / 100"
| "basePercentage LOW = 30 / 100"
| "basePercentage OPTIONAL = 35 / 100"

definition complexityMultiplier :: "pyfloat \<Rightarrow> rat" where
  "complexityMultiplier score =
     (if float_le_int score 3 then 1 else if float_le_int score 6 then 12 / 10
      else if float_le_int score 8 then 15 / 10 else 2)"

definition dependencyMultiplier :: "int \<Rightarrow> rat" where
  "dependencyMultiplier n =
     (if n = 0 then 1 else if 1 \<le> n \<and> n \<le> 2 then 11 / 10
      else if 3 \<le> n \<and> n \<le> 5 then 13 / 10 else 15 / 10)"

text \<open>The \<open>clamp\<close> of the specification and its product
  \<open>duration \<times> basePct \<times> complexityMult \<times> dependencyMult\<close>, exact, in microseconds.\<close>

definition clamp :: "rat \<Rightarrow> rat \<Rightarrow> rat \<Rightarrow> rat" where
  "clamp x lo hi = max lo (min x hi)"

definition buffer_product :: "Activity \<Rightarrow> pyfloat \<Rightarrow> int \<Rightarrow> rat" where
  "buffer_product a score n =
     of_int (duration a) * basePercentage (priority a) * complexityMultiplier score
       * dependencyMultiplier n"

text \<open>An activity of 3 hours 48 minutes and 7 microseconds of critical priority, and one whose
  duration is the longest \<^verbatim>\<open>timedelta\<close>, of optional priority.\<close>

definition critical_activity :: Activity where
  "critical_activity =
     (plain_activity ''a'')\<lparr>duration := hours 3 + minutes 48 + 7, priority := CRITICAL\<rparr>"

definition longest_activity :: Activity where
  "longest_activity = (plain_activity ''a'')\<lparr>duration := days 1000000000 - 1, priority := OPTIONAL\<rparr>"

text \<open>
  C8, as stated, fails. The result is not exactly the clamped product: for the first
  activity, score 0 and 6 dependencies the product is 3078000001.575 microseconds, inside
  the clamp, and the code returns 3078000001 microseconds. Each of the two
  \<^verbatim>\<open>timedelta\<close>s it builds is rounded to whole microseconds, and the rounding of the first
  is multiplied by the two multipliers. And for the second activity, score 9 and 6
  dependencies, the product of the duration by 1.05 is no \<^verbatim>\<open>timedelta\<close>: the code raises
  \<^verbatim>\<open>OverflowError\<close> and returns nothing between 15 minutes and 2 hours.
\<close>

theorem calculate_buffer_time_not_exact:
  "calculate_buffer_time critical_activity (Finite 0) 6 = Inr 3078000001
   \<and> buffer_product critical_activity (Finite 0) 6 = 3078000001 + 23 / 40
   \<and> clamp (buffer_product critical_activity (Finite 0) 6) (of_int (minutes 15)) (of_int (hours 2))
       = 3078000001 + 23 / 40
   \<and> calculate_buffer_time longest_activity (Finite 9) 6 = Inl OverflowError"
  by code_simp

































end
